theory Spec2Isabelle
  imports Main "HOL-Library.Word"
begin

unbundle bit_operations_syntax


section \<open>zerofree.c: command line and start-up (lines 121--235)\<close>

text \<open>
  Data model of the C program. The C types are read on an LP64 platform (Linux, the
  platform of libext2fs): \<open>int\<close> and \<open>unsigned int\<close> are 32 bits, \<open>long\<close> and
  \<open>unsigned long\<close> are 64 bits. A value of a signed type is kept as the word of its
  two's complement bits and read with \<open>sint\<close>; an unsigned one is read with \<open>unat\<close>.
\<close>

type_synonym c_int = "32 word"
type_synonym c_uint = "32 word"
type_synonym c_long = "64 word"
type_synonym c_ulong = "64 word"
type_synonym byte = "8 word"

text \<open>
  \<open>getopt\<close> and \<open>strtol\<close> belong to the C library. An option argument enters the
  model as what \<open>strtol(optarg, &endptr, 0)\<close> delivered for it: whether \<open>optarg\<close> is
  the empty string, the \<open>long\<close> returned, and whether \<open>endptr\<close> stopped at the end
  of the string.
\<close>

record strtol_result =
  arg_empty :: bool
  parsed :: c_long
  rest_empty :: bool

text \<open>One return of \<open>getopt(argc, argv, "nvf:t:")\<close>; \<open>Opt_other\<close> is the \<open>'?'\<close> of an
  unknown option or of a missing option argument (the \<open>default\<close> branch).\<close>

datatype cli_opt = Opt_n | Opt_v | Opt_f strtol_result | Opt_t strtol_result | Opt_other

datatype message =
    Msg_invalid_f | Msg_fill_range | Msg_invalid_t | Msg_thread_range | Msg_usage
  | Msg_mount_state | Msg_mounted_rw | Msg_open_failed | Msg_out_of_memory
  | Msg_inode_bitmap | Msg_block_bitmap

text \<open>The globals the option loop assigns (lines 40--42) and the local \<open>max_threads\<close>
  (line 130).\<close>

record settings =
  set_dryrun :: bool
  set_verbose :: bool
  set_fillval :: c_uint
  set_max_threads :: c_int

definition initial_settings :: settings where
  "initial_settings =
     \<lparr>set_dryrun = False, set_verbose = False, set_fillval = 0, set_max_threads = 1\<rparr>"

text \<open>
  The \<open>while\<close> loop of lines 133--171. Line 144 stores the \<open>long\<close> of \<open>strtol\<close> in the
  \<open>unsigned int fillval\<close>, line 157 in the \<open>int max_threads\<close>: both keep the low 32 bits
  (\<open>ucast\<close>). The checks of lines 148 and 161 read the stored 32-bit value.
\<close>

fun parse_opts :: "cli_opt list \<Rightarrow> settings \<Rightarrow> message + settings" where
  "parse_opts [] st = Inr st"
| "parse_opts (Opt_n # os) st = parse_opts os (st\<lparr>set_dryrun := True\<rparr>)"
| "parse_opts (Opt_v # os) st = parse_opts os (st\<lparr>set_verbose := True\<rparr>)"
| "parse_opts (Opt_f r # os) st =
     (let st' = st\<lparr>set_fillval := ucast (parsed r)\<rparr> in
      if arg_empty r \<or> \<not> rest_empty r then Inl Msg_invalid_f
      else if set_fillval st' > 0xFF then Inl Msg_fill_range
      else parse_opts os st')"
| "parse_opts (Opt_t r # os) st =
     (let st' = st\<lparr>set_max_threads := ucast (parsed r)\<rparr> in
      if arg_empty r \<or> \<not> rest_empty r then Inl Msg_invalid_t
      else if sint (set_max_threads st') < 1 \<or> sint (set_max_threads st') > 1024 * 1024
        then Inl Msg_thread_range
      else parse_opts os st')"
| "parse_opts (Opt_other # os) st = Inl Msg_usage"

text \<open>
  The file system as libext2fs presents it after \<open>ext2fs_open\<close>: the superblock fields
  the program reads (\<open>__u32\<close> each), the block bitmap as the answer of
  \<open>ext2fs_test_block_bitmap\<close> (true: in use), the content of the device by block number
  and byte offset, and which block reads and writes fail. \<open>io_channel_read_blk\<close> and
  \<open>io_channel_write_blk\<close> take the block number as \<open>unsigned long\<close>.
\<close>

record filesys =
  fs_blocksize :: nat
  fs_first_data_block :: c_uint
  fs_blocks_count :: c_uint
  fs_free_blocks_count :: c_uint
  fs_block_map :: "c_uint \<Rightarrow> bool"
  fs_volume :: "c_ulong \<Rightarrow> nat \<Rightarrow> byte"
  fs_read_fails :: "c_ulong \<Rightarrow> bool"
  fs_write_fails :: "c_ulong \<Rightarrow> bool"
  fs_close_fails :: bool

text \<open>
  What the process meets outside its own code: the options \<open>getopt\<close> returns in order,
  the number of arguments left (\<open>argc - optind\<close>), the answers of
  \<open>ext2fs_check_if_mounted\<close> (its return value, and the two bits of \<open>flags\<close> line 186
  tests), of \<open>ext2fs_open\<close>, \<open>malloc\<close> and the two bitmap readers. \<open>flag_rw\<close> is the value
  of the header's macro \<open>EXT2_FLAG_RW\<close>, which is not part of this repository.
\<close>

record environment =
  env_opts :: "cli_opt list"
  env_positional :: nat
  env_mount_check_fails :: bool
  env_mounted :: bool
  env_readonly :: bool
  env_flag_rw :: c_int
  env_open_fails :: bool
  env_malloc_fails :: bool
  env_inode_bitmap_fails :: bool
  env_block_bitmap_fails :: bool
  env_fs :: filesys

text \<open>The library calls of \<open>main\<close> that touch the volume or start threads, in the order
  made; \<open>Call_open\<close> carries the \<open>flags\<close> argument.\<close>

datatype call =
    Call_check_if_mounted | Call_open c_int | Call_read_inode_bitmap
  | Call_pthread_create nat | Call_read_block_bitmap

text \<open>What the sweep (lines 236--255) is run with.\<close>

record config =
  max_threads :: c_int
  dryrun :: bool
  verbose :: bool
  fillval :: c_uint
  fs :: filesys

datatype startup = Exit_with c_int message "call list" | Start_sweep config "call list"

text \<open>The number of threads the loop of lines 221--222 creates.\<close>

definition nworkers :: "config \<Rightarrow> nat" where
  "nworkers cfg = nat (sint (max_threads cfg))"

text \<open>Lines 126 and 133--235 of \<open>main\<close>. \<open>open_flags\<close> is assigned once, at line 126.\<close>

definition main_startup :: "environment \<Rightarrow> startup" where
  "main_startup env =
     (let open_flags = env_flag_rw env in
      case parse_opts (env_opts env) initial_settings of
        Inl m \<Rightarrow> Exit_with 1 m []
      | Inr st \<Rightarrow>
          if env_positional env \<noteq> 1 then Exit_with 1 Msg_usage []
          else if env_mount_check_fails env
            then Exit_with 1 Msg_mount_state [Call_check_if_mounted]
          else if env_mounted env \<and> \<not> env_readonly env
            then Exit_with 1 Msg_mounted_rw [Call_check_if_mounted]
          else if env_open_fails env
            then Exit_with 1 Msg_open_failed [Call_check_if_mounted, Call_open open_flags]
          else if env_malloc_fails env
            then Exit_with 1 Msg_out_of_memory [Call_check_if_mounted, Call_open open_flags]
          else if env_inode_bitmap_fails env
            then Exit_with 1 Msg_inode_bitmap
              [Call_check_if_mounted, Call_open open_flags, Call_read_inode_bitmap]
          else
            (let cfg = \<lparr>max_threads = set_max_threads st, dryrun = set_dryrun st,
                        verbose = set_verbose st, fillval = set_fillval st, fs = env_fs env\<rparr>;
                 calls = [Call_check_if_mounted, Call_open open_flags, Call_read_inode_bitmap,
                          Call_pthread_create (nworkers cfg), Call_read_block_bitmap]
             in if env_block_bitmap_fails env then Exit_with 1 Msg_block_bitmap calls
                else Start_sweep cfg calls))"

section \<open>The block number across the handoff (lines 33, 58, 65, 82, 103)\<close>

text \<open>
  Line 58, \<open>int blk = job_block_num\<close>, converts the \<open>unsigned long\<close> slot to \<open>int\<close>: the
  low 32 bits. Line 65 passes \<open>blk\<close> as the \<open>blk_t\<close> (\<open>__u32\<close>) parameter of
  \<open>ext2fs_test_block_bitmap\<close>: the same 32 bits. Lines 82 and 103 pass it as the
  \<open>unsigned long\<close> parameter of the I/O channel: the sign extension.
\<close>

definition worker_blk :: "c_ulong \<Rightarrow> c_int" where
  "worker_blk j = ucast j"

definition test_block :: "c_int \<Rightarrow> c_uint" where
  "test_block b = b"

definition io_block :: "c_int \<Rightarrow> c_ulong" where
  "io_block b = scast b"

section \<open>The sweep: shared state, worker threads and the dispatch loop\<close>

text \<open>
  The threads of the process. The sweep is modelled as an interleaving of the steps of
  \<open>main\<close> and of the worker threads; one step is one statement of the source (one call
  of a pthread function, one assignment to a shared variable, one test), and the
  program counters below are named after the source line of the statement that is
  executed next.
\<close>

datatype thr = Main | Worker nat

datatype wpc =
    W50 | W54 | W55 | W55r | W56 | W58 | W59 | W60 | W61 | W62 | W65 | W69 | W70 | W71
  | W73 | W75 | W76 | W77 | W78 | W82 | W88 | W98 | W99 | W100 | W102 | W103 | W110
  | W111 | W112 | W116 | W116s | W117 | W_returned

datatype mpc =
    M236 | M237 | M238 | M239 | M239r | M240 | M241 | M242 | M243 | M244 | M244r | M245
  | M247 | M248 | M249 | M250 | M251 nat | M257 | M261 | M_returned c_int

text \<open>
  The locals of one \<open>worker_thread\<close>: its program counter, \<open>blk\<close> (line 58) and the
  content of \<open>buf\<close> (line 48, filled at line 82). \<open>loaded\<close> is the value of
  \<open>runningThreads\<close> that line 116 has read and not yet written back (see \<open>W116\<close> below).
  \<open>wjob\<close> is not a variable of the program: it remembers the value of the job slot this
  worker copied at line 58.
\<close>

record wstate =
  wpc :: wpc
  blk :: c_int
  buf :: "byte list"
  loaded :: c_int
  wjob :: c_ulong

text \<open>
  \<open>percent\<close> (line 38) is a \<open>double\<close>. The model keeps the operands it was computed
  from instead of a floating-point value: \<open>Pct_zero\<close> is the constant \<open>0.0\<close> of line 232,
  \<open>Pct_quot a b\<close> is \<open>100.0 * (double)a / (double)b\<close> (line 71).
\<close>

datatype pct = Pct_zero | Pct_quot c_uint c_uint

text \<open>What a worker did to the volume, for the history of a run: the calls of lines 65,
  82 and 103 with the block number passed, and the two error reports (lines 84, 105).\<close>

datatype io_op =
    Test c_uint | Read c_ulong | Read_failed c_ulong | Write c_ulong | Write_failed c_ulong

text \<open>
  The shared variables of lines 26--39, the device, and the threads. \<open>handoff\<close> and
  \<open>iolog\<close> are history variables: each job taken at line 58 with the worker that took
  it, and each volume operation with the worker and the job it was made for. \<open>quit\<close> and
  \<open>do_job\<close> only ever hold 0 or 1 and are kept as truth values.
\<close>

record state =
  mutex :: "thr option"
  quit :: bool
  do_job :: bool
  job_block_num :: c_ulong
  runningThreads :: c_int
  freeBlocks :: c_uint
  modifiedBlocks :: c_uint
  percent :: pct
  device :: "c_ulong \<Rightarrow> nat \<Rightarrow> byte"
  mpc :: mpc
  mblk :: c_ulong
  workers :: "nat \<Rightarrow> wstate"
  handoff :: "(nat \<times> c_ulong) list"
  iolog :: "(nat \<times> c_ulong \<times> io_op) list"

text \<open>The state when \<open>main\<close> reaches line 236: every worker thread has been created
  and stands before line 50; lines 231--233 have reset the counters.\<close>

definition init :: "config \<Rightarrow> state" where
  "init cfg =
     \<lparr>mutex = None, quit = False, do_job = False, job_block_num = 0, runningThreads = 0,
      freeBlocks = 0, modifiedBlocks = 0, percent = Pct_zero,
      device = fs_volume (fs cfg), mpc = M236, mblk = ucast (fs_first_data_block (fs cfg)),
      workers = (\<lambda>t. \<lparr>wpc = W50, blk = 0, buf = [], loaded = 0, wjob = 0\<rparr>),
      handoff = [], iolog = []\<rparr>"

subsection \<open>The pthread primitives\<close>

text \<open>
  \<open>pthread_mutex_lock\<close> blocks while the mutex is held. The mutex is created with
  default attributes (line 220), so \<open>pthread_mutex_unlock\<close> makes no check of the owner:
  it returns with the mutex free, whoever held it. That matters at line 117 only, which
  a worker reaches from lines 85 and 106 without holding the mutex; every other unlock
  of the program is made by the thread that took the mutex.
\<close>

definition lock_then :: "thr \<Rightarrow> state \<Rightarrow> (state \<Rightarrow> state) \<Rightarrow> state option" where
  "lock_then x s k = (if mutex s = None then Some (k (s\<lparr>mutex := Some x\<rparr>)) else None)"

definition unlock_then :: "thr \<Rightarrow> state \<Rightarrow> (state \<Rightarrow> state) \<Rightarrow> state option" where
  "unlock_then x s k = Some (k (s\<lparr>mutex := None\<rparr>))"

definition goto :: "nat \<Rightarrow> wpc \<Rightarrow> state \<Rightarrow> state" where
  "goto t p s = s\<lparr>workers := (workers s)(t := (workers s t)\<lparr>wpc := p\<rparr>)\<rparr>"

definition mgoto :: "mpc \<Rightarrow> state \<Rightarrow> state" where
  "mgoto p s = s\<lparr>mpc := p\<rparr>"

text \<open>
  The threads blocked on a condition are those whose program counter stands in the
  \<open>pthread_cond_wait\<close>: workers at \<open>W55\<close> on \<open>job_enqueued\<close>, \<open>main\<close> at \<open>M239\<close> on
  \<open>job_done\<close> and at \<open>M244\<close> on \<open>job_accepted\<close>. A woken thread has to take the mutex
  again (\<open>W55r\<close>, \<open>M239r\<close>, \<open>M244r\<close>) before \<open>pthread_cond_wait\<close> returns.
  \<open>pthread_cond_signal\<close> wakes one waiting thread, if there is one; which one is the
  scheduler's choice \<open>c\<close>.
\<close>

definition waiters :: "config \<Rightarrow> state \<Rightarrow> nat list" where
  "waiters cfg s = filter (\<lambda>t. wpc (workers s t) = W55) [0..<nworkers cfg]"

definition signal_enqueued :: "config \<Rightarrow> nat \<Rightarrow> state \<Rightarrow> state" where
  "signal_enqueued cfg c s =
     (let ws = waiters cfg s in
      if ws = [] then s else goto (ws ! (c mod length ws)) W55r s)"

definition broadcast_enqueued :: "config \<Rightarrow> state \<Rightarrow> state" where
  "broadcast_enqueued cfg s =
     s\<lparr>workers := (\<lambda>t. if t < nworkers cfg \<and> wpc (workers s t) = W55
                         then (workers s t)\<lparr>wpc := W55r\<rparr> else workers s t)\<rparr>"

definition signal_accepted :: "state \<Rightarrow> state" where
  "signal_accepted s = (if mpc s = M244 then s\<lparr>mpc := M244r\<rparr> else s)"

definition signal_done :: "state \<Rightarrow> state" where
  "signal_done s = (if mpc s = M239 then s\<lparr>mpc := M239r\<rparr> else s)"

subsection \<open>The volume operations\<close>

text \<open>\<open>io_channel_read_blk(fs->io, blk, 1, buf)\<close>: the \<open>blocksize\<close> bytes of the block.\<close>

definition read_blk :: "config \<Rightarrow> (c_ulong \<Rightarrow> nat \<Rightarrow> byte) \<Rightarrow> c_ulong \<Rightarrow> byte list" where
  "read_blk cfg d b = map (d b) [0..<fs_blocksize (fs cfg)]"

text \<open>Lines 201--207: \<open>empty\<close> is \<open>blocksize\<close> bytes, each \<open>fillval\<close> converted to
  \<open>unsigned char\<close> by \<open>memset\<close>.\<close>

definition empty_buf :: "config \<Rightarrow> byte list" where
  "empty_buf cfg = replicate (fs_blocksize (fs cfg)) (ucast (fillval cfg))"

text \<open>\<open>io_channel_write_blk(fs->io, blk, 1, empty)\<close>: the first \<open>blocksize\<close> bytes of the
  block become those of the buffer.\<close>

definition write_blk ::
  "config \<Rightarrow> (c_ulong \<Rightarrow> nat \<Rightarrow> byte) \<Rightarrow> c_ulong \<Rightarrow> byte list \<Rightarrow> (c_ulong \<Rightarrow> nat \<Rightarrow> byte)" where
  "write_blk cfg d b bs = d(b := (\<lambda>i. if i < fs_blocksize (fs cfg) then bs ! i else d b i))"

text \<open>The loop of lines 88--92, from index \<open>i\<close>: the value of \<open>i\<close> when it ends. The
  comparison \<open>buf[i] != fillval\<close> is made in \<open>unsigned int\<close>.\<close>

function scan_buf :: "byte list \<Rightarrow> c_uint \<Rightarrow> nat \<Rightarrow> nat \<Rightarrow> nat" where
  "scan_buf bs fv n i =
     (if i < n then (if ucast (bs ! i) \<noteq> fv then i else scan_buf bs fv n (Suc i)) else i)"
  by pat_completeness auto
termination
  by (relation "measure (\<lambda>(bs, fv, n, i). n - i)") auto

declare scan_buf.simps [simp del]

definition log_io :: "nat \<Rightarrow> c_ulong \<Rightarrow> io_op \<Rightarrow> state \<Rightarrow> state" where
  "log_io t j ev s = s\<lparr>iolog := iolog s @ [(t, j, ev)]\<rparr>"

subsection \<open>One step of a worker thread (lines 50--118)\<close>

text \<open>
  \<open>c\<close> is the scheduler's choice at line 75: the test
  \<open>(int)(percent*10) != old_percent\<close> is floating-point arithmetic on a variable read
  without the lock, and the model lets it go either way when \<open>verbose\<close> is set. Lines
  76--79 print and assign \<open>old_percent\<close>, which nothing else reads.

  The increments and decrements of lines 59, 70, 99 and 111 are made between a lock and
  an unlock of the mutex and are one step each. Line 116, \<open>runningThreads--\<close>, is
  reached by \<open>goto finish\<close> after the unlock of line 73 or 100, without the mutex: its
  read (\<open>W116\<close>) and its write (\<open>W116s\<close>) are two steps, and other threads may run in
  between. Line 117 then unlocks and line 118 returns, whoever holds the mutex.
\<close>

definition worker_step :: "config \<Rightarrow> nat \<Rightarrow> nat \<Rightarrow> state \<Rightarrow> state option" where
  "worker_step cfg t c s =
     (let w = workers s t; me = Worker t in
      case wpc w of
        W50 \<Rightarrow> lock_then me s (goto t W54)
      | W54 \<Rightarrow> if \<not> do_job s then unlock_then me s (goto t W55) else Some (goto t W56 s)
      | W55 \<Rightarrow> None
      | W55r \<Rightarrow> lock_then me s (goto t W54)
      | W56 \<Rightarrow> Some (goto t (if quit s then W116 else W58) s)
      | W58 \<Rightarrow>
          Some (s\<lparr>workers := (workers s)(t := w\<lparr>wpc := W59,
                      blk := worker_blk (job_block_num s), wjob := job_block_num s\<rparr>),
                  handoff := handoff s @ [(t, job_block_num s)]\<rparr>)
      | W59 \<Rightarrow> Some (goto t W60 (s\<lparr>runningThreads := runningThreads s + 1\<rparr>))
      | W60 \<Rightarrow> Some (goto t W61 (s\<lparr>do_job := False\<rparr>))
      | W61 \<Rightarrow> Some (goto t W62 (signal_accepted s))
      | W62 \<Rightarrow> unlock_then me s (goto t W65)
      | W65 \<Rightarrow>
          Some (goto t (if fs_block_map (fs cfg) (test_block (blk w)) then W110 else W69)
                  (log_io t (wjob w) (Test (test_block (blk w))) s))
      | W69 \<Rightarrow> lock_then me s (goto t W70)
      | W70 \<Rightarrow> Some (goto t W71 (s\<lparr>freeBlocks := freeBlocks s + 1\<rparr>))
      | W71 \<Rightarrow>
          Some (goto t W73
                  (s\<lparr>percent := Pct_quot (freeBlocks s) (fs_free_blocks_count (fs cfg))\<rparr>))
      | W73 \<Rightarrow> unlock_then me s (goto t W75)
      | W75 \<Rightarrow> Some (goto t (if verbose cfg \<and> c \<noteq> 0 then W76 else W82) s)
      | W76 \<Rightarrow> lock_then me s (goto t W77)
      | W77 \<Rightarrow> Some (goto t W78 s)
      | W78 \<Rightarrow> unlock_then me s (goto t W82)
      | W82 \<Rightarrow>
          (let b = io_block (blk w) in
           if fs_read_fails (fs cfg) b
           then Some (goto t W116 (log_io t (wjob w) (Read_failed b) s))
           else Some (log_io t (wjob w) (Read b)
                  (s\<lparr>workers := (workers s)(t := w\<lparr>wpc := W88,
                        buf := read_blk cfg (device s) b\<rparr>)\<rparr>)))
      | W88 \<Rightarrow>
          Some (goto t (if scan_buf (buf w) (fillval cfg) (fs_blocksize (fs cfg)) 0
                           = fs_blocksize (fs cfg) then W110 else W98) s)
      | W98 \<Rightarrow> lock_then me s (goto t W99)
      | W99 \<Rightarrow> Some (goto t W100 (s\<lparr>modifiedBlocks := modifiedBlocks s + 1\<rparr>))
      | W100 \<Rightarrow> unlock_then me s (goto t W102)
      | W102 \<Rightarrow> Some (goto t (if \<not> dryrun cfg then W103 else W110) s)
      | W103 \<Rightarrow>
          (let b = io_block (blk w) in
           if fs_write_fails (fs cfg) b
           then Some (goto t W116 (log_io t (wjob w) (Write_failed b) s))
           else Some (goto t W110 (log_io t (wjob w) (Write b)
                  (s\<lparr>device := write_blk cfg (device s) b (empty_buf cfg)\<rparr>))))
      | W110 \<Rightarrow> lock_then me s (goto t W111)
      | W111 \<Rightarrow> Some (goto t W112 (s\<lparr>runningThreads := runningThreads s - 1\<rparr>))
      | W112 \<Rightarrow> Some (goto t W54 (signal_done s))
      | W116 \<Rightarrow>
          Some (s\<lparr>workers := (workers s)(t := w\<lparr>wpc := W116s, loaded := runningThreads s\<rparr>)\<rparr>)
      | W116s \<Rightarrow> Some (goto t W117 (s\<lparr>runningThreads := loaded w - 1\<rparr>))
      | W117 \<Rightarrow> unlock_then me s (goto t W_returned)
      | W_returned \<Rightarrow> None)"

subsection \<open>One step of \<open>main\<close> (lines 236--267)\<close>

text \<open>
  \<open>blk\<close> is \<open>unsigned long\<close>, \<open>s_blocks_count\<close> is \<open>__u32\<close>: line 236 compares in
  \<open>unsigned long\<close>. \<open>M245\<close> unlocks and then increments \<open>blk\<close>, a local of \<open>main\<close>.
  \<open>pthread_join\<close> (line 254) returns once the thread has returned. Lines 257--259 print;
  line 261 closes the file system, and \<open>main\<close> returns 1 or 0.
\<close>

definition main_step :: "config \<Rightarrow> nat \<Rightarrow> state \<Rightarrow> state option" where
  "main_step cfg c s =
     (case mpc s of
        M236 \<Rightarrow>
          Some (mgoto (if mblk s < ucast (fs_blocks_count (fs cfg)) then M237 else M247) s)
      | M237 \<Rightarrow> lock_then Main s (mgoto M238)
      | M238 \<Rightarrow>
          if sint (max_threads cfg) \<le> sint (runningThreads s)
          then unlock_then Main s (mgoto M239) else Some (mgoto M240 s)
      | M239 \<Rightarrow> None
      | M239r \<Rightarrow> lock_then Main s (mgoto M238)
      | M240 \<Rightarrow> Some (mgoto M241 (s\<lparr>job_block_num := mblk s\<rparr>))
      | M241 \<Rightarrow> Some (mgoto M242 (s\<lparr>do_job := True\<rparr>))
      | M242 \<Rightarrow> Some (mgoto M243 (signal_enqueued cfg c s))
      | M243 \<Rightarrow> if do_job s then unlock_then Main s (mgoto M244) else Some (mgoto M245 s)
      | M244 \<Rightarrow> None
      | M244r \<Rightarrow> lock_then Main s (mgoto M243)
      | M245 \<Rightarrow> unlock_then Main s (\<lambda>s'. mgoto M236 (s'\<lparr>mblk := mblk s' + 1\<rparr>))
      | M247 \<Rightarrow> lock_then Main s (mgoto M248)
      | M248 \<Rightarrow> Some (mgoto M249 (s\<lparr>quit := True\<rparr>))
      | M249 \<Rightarrow> Some (mgoto M250 (broadcast_enqueued cfg s))
      | M250 \<Rightarrow> unlock_then Main s (mgoto (M251 0))
      | M251 i \<Rightarrow>
          if i < nworkers cfg
          then (if wpc (workers s i) = W_returned then Some (mgoto (M251 (Suc i)) s) else None)
          else Some (mgoto M257 s)
      | M257 \<Rightarrow> Some (mgoto M261 s)
      | M261 \<Rightarrow> Some (mgoto (M_returned (if fs_close_fails (fs cfg) then 1 else 0)) s)
      | M_returned rc \<Rightarrow> None)"

subsection \<open>Schedules\<close>

text \<open>
  An event is a step of one thread, with the scheduler's choice, or a spurious wake-up
  of a thread that waits on a condition (POSIX allows them). A thread that is blocked,
  or has returned, has no step.
\<close>

datatype event = Run thr nat | Spurious thr

definition spurious :: "config \<Rightarrow> thr \<Rightarrow> state \<Rightarrow> state option" where
  "spurious cfg x s =
     (case x of
        Main \<Rightarrow>
          (if mpc s = M239 then Some (mgoto M239r s)
           else if mpc s = M244 then Some (mgoto M244r s) else None)
      | Worker t \<Rightarrow>
          (if t < nworkers cfg \<and> wpc (workers s t) = W55 then Some (goto t W55r s) else None))"

definition step :: "config \<Rightarrow> state \<Rightarrow> event \<Rightarrow> state option" where
  "step cfg s e =
     (case e of
        Run Main c \<Rightarrow> main_step cfg c s
      | Run (Worker t) c \<Rightarrow> (if t < nworkers cfg then worker_step cfg t c s else None)
      | Spurious x \<Rightarrow> spurious cfg x s)"

text \<open>Running a schedule from a state: \<open>None\<close> when some event of it cannot happen.\<close>

fun exec :: "config \<Rightarrow> event list \<Rightarrow> state \<Rightarrow> state option" where
  "exec cfg [] s = Some s"
| "exec cfg (e # es) s = (case step cfg s e of None \<Rightarrow> None | Some s' \<Rightarrow> exec cfg es s')"

section \<open>Definitions for the statements about start-up\<close>

fun calls_of :: "startup \<Rightarrow> call list" where
  "calls_of (Exit_with rc m cs) = cs"
| "calls_of (Start_sweep cfg cs) = cs"

text \<open>The calls of \<open>ext2fs_open\<close>.\<close>

fun is_open :: "call \<Rightarrow> bool" where
  "is_open (Call_open f) = True" | "is_open _ = False"

text \<open>A one-block file system and three command lines used as concrete inputs:
  \<open>-f 4294967296\<close>, \<open>-t 4294967297\<close> and \<open>-n\<close>, each followed by the image path.\<close>

definition tiny_fs :: filesys where
  "tiny_fs =
     \<lparr>fs_blocksize = 2, fs_first_data_block = 0, fs_blocks_count = 1,
      fs_free_blocks_count = 1, fs_block_map = (\<lambda>b. False), fs_volume = (\<lambda>b i. 7),
      fs_read_fails = (\<lambda>b. False), fs_write_fails = (\<lambda>b. False), fs_close_fails = False\<rparr>"

definition env_with :: "cli_opt list \<Rightarrow> environment" where
  "env_with os =
     \<lparr>env_opts = os, env_positional = 1, env_mount_check_fails = False,
      env_mounted = False, env_readonly = False, env_flag_rw = 1, env_open_fails = False,
      env_malloc_fails = False, env_inode_bitmap_fails = False,
      env_block_bitmap_fails = False, env_fs = tiny_fs\<rparr>"

definition env_wide_fill :: environment where
  "env_wide_fill =
     env_with [Opt_f \<lparr>arg_empty = False, parsed = 4294967296, rest_empty = True\<rparr>]"

definition env_wide_threads :: environment where
  "env_wide_threads =
     env_with [Opt_t \<lparr>arg_empty = False, parsed = 4294967297, rest_empty = True\<rparr>]"

definition env_dry :: environment where
  "env_dry = env_with [Opt_n]"

definition all_calls :: "call list" where
  "all_calls =
     [Call_check_if_mounted, Call_open 1, Call_read_inode_bitmap, Call_pthread_create 1,
      Call_read_block_bitmap]"

section \<open>Definitions for the invariants of the sweep\<close>

subsection \<open>Who holds the mutex, and the two flags\<close>

text \<open>The statements a worker executes with the mutex held.\<close>

fun wheld :: "wpc \<Rightarrow> bool" where
  "wheld W54 = True" | "wheld W56 = True" | "wheld W58 = True" | "wheld W59 = True"
| "wheld W60 = True" | "wheld W61 = True" | "wheld W62 = True" | "wheld W70 = True"
| "wheld W71 = True" | "wheld W73 = True" | "wheld W77 = True" | "wheld W78 = True"
| "wheld W99 = True" | "wheld W100 = True" | "wheld W111 = True" | "wheld W112 = True"
| "wheld _ = False"

text \<open>The statements \<open>main\<close> executes with the mutex held.\<close>

fun mheld :: "mpc \<Rightarrow> bool" where
  "mheld M238 = True" | "mheld M240 = True" | "mheld M241 = True" | "mheld M242 = True"
| "mheld M243 = True" | "mheld M245 = True" | "mheld M248 = True" | "mheld M249 = True"
| "mheld M250 = True" | "mheld _ = False"

text \<open>\<open>main\<close> has published a job and waits for its acceptance.\<close>

fun mpending :: "mpc \<Rightarrow> bool" where
  "mpending M242 = True" | "mpending M243 = True" | "mpending M244 = True"
| "mpending M244r = True" | "mpending _ = False"

text \<open>\<open>main\<close> has executed line 248.\<close>

fun mafter :: "mpc \<Rightarrow> bool" where
  "mafter M249 = True" | "mafter M250 = True" | "mafter (M251 i) = True" | "mafter M257 = True"
| "mafter M261 = True" | "mafter (M_returned rc) = True" | "mafter _ = False"

text \<open>A worker has found \<open>do_job\<close> set at line 54 and has not yet cleared it.\<close>

fun wsees :: "wpc \<Rightarrow> bool" where
  "wsees W56 = True" | "wsees W58 = True" | "wsees W59 = True" | "wsees W60 = True"
| "wsees _ = False"

text \<open>A worker is on its way out of \<open>worker_thread\<close> (lines 115--118).\<close>

fun wleaving :: "wpc \<Rightarrow> bool" where
  "wleaving W116 = True" | "wleaving W116s = True" | "wleaving W117 = True"
| "wleaving W_returned = True" | "wleaving _ = False"

text \<open>The error reports of lines 84 and 105, and the runs in which no worker has made
  one so far.\<close>

fun failure :: "io_op \<Rightarrow> bool" where
  "failure (Read_failed b) = True" | "failure (Write_failed b) = True" | "failure _ = False"

definition error_free :: "state \<Rightarrow> bool" where
  "error_free s = list_all (\<lambda>(t, j, ev). \<not> failure ev) (iolog s)"

definition sync_w :: "state \<Rightarrow> nat \<Rightarrow> bool" where
  "sync_w s t \<longleftrightarrow>
     ((mutex s = Some (Worker t)) = wheld (wpc (workers s t))) \<and>
     (wsees (wpc (workers s t)) \<longrightarrow> do_job s) \<and>
     \<not> wleaving (wpc (workers s t))"

definition sync_g :: "state \<Rightarrow> bool" where
  "sync_g s \<longleftrightarrow>
     ((mutex s = Some Main) = mheld (mpc s)) \<and>
     (quit s \<longrightarrow> \<not> do_job s \<and> mafter (mpc s)) \<and>
     (do_job s \<longrightarrow> mpending (mpc s)) \<and>
     (do_job s \<or> mpc s = M241 \<longrightarrow> job_block_num s = mblk s)"

text \<open>The mutex is only ever held by a thread that exists.\<close>

definition holder_ok :: "config \<Rightarrow> state \<Rightarrow> bool" where
  "holder_ok cfg s \<longleftrightarrow>
     (case mutex s of Some (Worker t) \<Rightarrow> t < nworkers cfg | _ \<Rightarrow> True)"

definition inv_sync :: "config \<Rightarrow> state \<Rightarrow> bool" where
  "inv_sync cfg s \<longleftrightarrow> sync_g s \<and> (\<forall>t < nworkers cfg. sync_w s t) \<and> holder_ok cfg s"

subsection \<open>The count of running threads\<close>

text \<open>A worker has executed the increment of line 59 and not yet the decrement of
  line 111 or line 116.\<close>

fun wactive :: "wpc \<Rightarrow> bool" where
  "wactive W60 = True" | "wactive W61 = True" | "wactive W62 = True" | "wactive W65 = True"
| "wactive W69 = True" | "wactive W70 = True" | "wactive W71 = True" | "wactive W73 = True"
| "wactive W75 = True" | "wactive W76 = True" | "wactive W77 = True" | "wactive W78 = True"
| "wactive W82 = True" | "wactive W88 = True" | "wactive W98 = True" | "wactive W99 = True"
| "wactive W100 = True" | "wactive W102 = True" | "wactive W103 = True"
| "wactive W110 = True" | "wactive W111 = True" | "wactive W116 = True"
| "wactive W116s = True"
| "wactive _ = False"

definition active :: "wstate \<Rightarrow> int" where
  "active w = (if wactive (wpc w) then 1 else 0)"

text \<open>Summing a quantity over the worker threads.\<close>

definition wsumf :: "(wstate \<Rightarrow> int) \<Rightarrow> nat \<Rightarrow> (nat \<Rightarrow> wstate) \<Rightarrow> int" where
  "wsumf f n W = (\<Sum>t<n. f (W t))"

definition inv_count :: "config \<Rightarrow> state \<Rightarrow> bool" where
  "inv_count cfg s \<longleftrightarrow>
     sint (runningThreads s) = wsumf active (nworkers cfg) (workers s)"

text \<open>\<open>main\<close> has passed the test of line 238 and not yet signalled at line 242.\<close>

fun madmitted :: "mpc \<Rightarrow> bool" where
  "madmitted M240 = True" | "madmitted M241 = True" | "madmitted M242 = True"
| "madmitted _ = False"

definition inv_admit :: "config \<Rightarrow> state \<Rightarrow> bool" where
  "inv_admit cfg s \<longleftrightarrow>
     (madmitted (mpc s) \<longrightarrow> sint (runningThreads s) < sint (max_threads cfg))"

text \<open>\<open>main\<close> is past a \<open>pthread_join\<close> that has returned.\<close>

fun mjoined :: "mpc \<Rightarrow> bool" where
  "mjoined (M251 (Suc i)) = True" | "mjoined M257 = True" | "mjoined M261 = True"
| "mjoined (M_returned rc) = True" | "mjoined _ = False"

definition inv_join :: "config \<Rightarrow> state \<Rightarrow> bool" where
  "inv_join cfg s \<longleftrightarrow> (0 < nworkers cfg \<longrightarrow> \<not> mjoined (mpc s))"

definition inv_basic :: "config \<Rightarrow> state \<Rightarrow> bool" where
  "inv_basic cfg s \<longleftrightarrow> inv_sync cfg s \<and> inv_count cfg s \<and> inv_admit cfg s \<and> inv_join cfg s"

subsection \<open>The jobs handed over\<close>

text \<open>A property of the program counter of the worker that holds the mutex, if one
  does.\<close>

definition holder_at :: "(wpc \<Rightarrow> bool) \<Rightarrow> thr option \<Rightarrow> (nat \<Rightarrow> wstate) \<Rightarrow> bool" where
  "holder_at P h W = (case h of Some (Worker t) \<Rightarrow> P (wpc (W t)) | _ \<Rightarrow> False)"

text \<open>A worker has copied the job slot (line 58) and not yet cleared \<open>do_job\<close>
  (line 60).\<close>

fun wtaken :: "wpc \<Rightarrow> bool" where
  "wtaken W59 = True" | "wtaken W60 = True" | "wtaken _ = False"

text \<open>1 when the block \<open>main\<close> is dispatching has been taken by a worker, else 0.\<close>

definition delta :: "state \<Rightarrow> nat" where
  "delta s =
     (if mpc s = M245 \<or>
         (mpending (mpc s) \<and> (\<not> do_job s \<or> holder_at wtaken (mutex s) (workers s)))
      then 1 else 0)"

text \<open>\<open>main\<close> is inside the body of the loop of line 236.\<close>

fun minloop :: "mpc \<Rightarrow> bool" where
  "minloop M237 = True" | "minloop M238 = True" | "minloop M239 = True"
| "minloop M239r = True" | "minloop M240 = True" | "minloop M241 = True"
| "minloop M242 = True" | "minloop M243 = True" | "minloop M244 = True"
| "minloop M244r = True" | "minloop M245 = True" | "minloop _ = False"

definition first_block :: "config \<Rightarrow> nat" where
  "first_block cfg = unat (fs_first_data_block (fs cfg))"

definition last_block :: "config \<Rightarrow> nat" where
  "last_block cfg = unat (fs_blocks_count (fs cfg))"

text \<open>The block numbers taken at line 58, in the order taken.\<close>

definition job_numbers :: "state \<Rightarrow> nat list" where
  "job_numbers s = map (\<lambda>(t, j). unat j) (handoff s)"

definition hand_g :: "config \<Rightarrow> state \<Rightarrow> bool" where
  "hand_g cfg s \<longleftrightarrow>
     job_numbers s = [first_block cfg ..< unat (mblk s) + delta s] \<and>
     first_block cfg \<le> unat (mblk s) \<and>
     unat (mblk s) \<le> max (first_block cfg) (last_block cfg) \<and>
     (minloop (mpc s) \<longrightarrow> unat (mblk s) < last_block cfg) \<and>
     (\<not> minloop (mpc s) \<and> mpc s \<noteq> M236 \<longrightarrow> last_block cfg \<le> unat (mblk s))"

text \<open>A worker owns a job: from line 59 until it has given the job up at line 111, or
  has left for line 115.\<close>

fun whasjob :: "wpc \<Rightarrow> bool" where
  "whasjob W50 = False" | "whasjob W54 = False" | "whasjob W55 = False"
| "whasjob W55r = False" | "whasjob W56 = False" | "whasjob W58 = False"
| "whasjob W112 = False" | "whasjob W116 = False" | "whasjob W116s = False"
| "whasjob W117 = False" | "whasjob W_returned = False" | "whasjob _ = True"

definition job_w :: "state \<Rightarrow> nat \<Rightarrow> bool" where
  "job_w s t \<longleftrightarrow>
     (whasjob (wpc (workers s t)) \<longrightarrow>
        blk (workers s t) = worker_blk (wjob (workers s t)) \<and>
        (t, wjob (workers s t)) \<in> set (handoff s))"

definition jobs_differ :: "state \<Rightarrow> nat \<Rightarrow> nat \<Rightarrow> bool" where
  "jobs_differ s t t' \<longleftrightarrow>
     (whasjob (wpc (workers s t)) \<and> whasjob (wpc (workers s t')) \<longrightarrow>
        wjob (workers s t) \<noteq> wjob (workers s t'))"

definition inv_hand :: "config \<Rightarrow> state \<Rightarrow> bool" where
  "inv_hand cfg s \<longleftrightarrow>
     hand_g cfg s \<and> (\<forall>t < nworkers cfg. job_w s t) \<and>
     (\<forall>t < nworkers cfg. \<forall>t' < nworkers cfg. t \<noteq> t' \<longrightarrow> jobs_differ s t t') \<and>
     (\<forall>x \<in> set (handoff s). fst x < nworkers cfg)"

subsection \<open>The history of volume operations\<close>

text \<open>The operation was made with the block number the worker derived from job \<open>j\<close>.\<close>

fun op_ok :: "c_ulong \<Rightarrow> io_op \<Rightarrow> bool" where
  "op_ok j (Test k) = (k = test_block (worker_blk j))"
| "op_ok j (Read b) = (b = io_block (worker_blk j))"
| "op_ok j (Read_failed b) = (b = io_block (worker_blk j))"
| "op_ok j (Write b) = (b = io_block (worker_blk j))"
| "op_ok j (Write_failed b) = (b = io_block (worker_blk j))"


definition log_g :: "state \<Rightarrow> bool" where
  "log_g s \<longleftrightarrow>
     (\<forall>x \<in> set (iolog s). (fst x, fst (snd x)) \<in> set (handoff s) \<and> op_ok (fst (snd x)) (snd (snd x)))"
definition inv_log :: "config \<Rightarrow> state \<Rightarrow> bool" where
  "inv_log cfg s \<longleftrightarrow> (\<forall>t < nworkers cfg. job_w s t) \<and> log_g s"

subsection \<open>Dry-run mode\<close>

text \<open>The calls of \<open>io_channel_write_blk\<close> (line 103), failed ones included.\<close>

fun is_write :: "io_op \<Rightarrow> bool" where
  "is_write (Write b) = True" | "is_write (Write_failed b) = True" | "is_write _ = False"

definition no_write :: "state \<Rightarrow> bool" where
  "no_write s = list_all (\<lambda>(t, j, ev). \<not> is_write ev) (iolog s)"

definition inv_dry :: "config \<Rightarrow> state \<Rightarrow> bool" where
  "inv_dry cfg s \<longleftrightarrow>
     (\<forall>t. wpc (workers s t) \<noteq> W103) \<and> no_write s \<and> device s = fs_volume (fs cfg)"

subsection \<open>The counters\<close>

text \<open>A worker has taken a job at line 58 and has neither counted it at line 70 nor
  found the block in use at line 65.\<close>

fun wpre70 :: "wpc \<Rightarrow> bool" where
  "wpre70 W59 = True" | "wpre70 W60 = True" | "wpre70 W61 = True" | "wpre70 W62 = True"
| "wpre70 W65 = True" | "wpre70 W69 = True" | "wpre70 W70 = True" | "wpre70 _ = False"

text \<open>A worker has counted its block at line 70 and has neither counted it at line 99
  nor found it filled at line 94.\<close>

fun wahead :: "wpc \<Rightarrow> bool" where
  "wahead W71 = True" | "wahead W73 = True" | "wahead W75 = True" | "wahead W76 = True"
| "wahead W77 = True" | "wahead W78 = True" | "wahead W82 = True" | "wahead W88 = True"
| "wahead W98 = True" | "wahead W99 = True" | "wahead _ = False"

definition pre70 :: "wstate \<Rightarrow> int" where
  "pre70 w = (if wpre70 (wpc w) then 1 else 0)"

definition ahead :: "wstate \<Rightarrow> int" where
  "ahead w = (if wahead (wpc w) then 1 else 0)"

text \<open>A worker stands between the increment of line 70 and the assignment of line
  71.\<close>

fun wat71 :: "wpc \<Rightarrow> bool" where
  "wat71 W71 = True" | "wat71 _ = False"

text \<open>The value of \<open>percent\<close> that belongs to a value of \<open>freeBlocks\<close>: the \<open>0.0\<close> of line
  232 while nothing has been counted, then the quotient of line 71 with the superblock's
  \<open>s_free_blocks_count\<close>.\<close>

definition pct_of :: "config \<Rightarrow> c_uint \<Rightarrow> pct" where
  "pct_of cfg f = (if f = 0 then Pct_zero else Pct_quot f (fs_free_blocks_count (fs cfg)))"

definition inv_free :: "config \<Rightarrow> state \<Rightarrow> bool" where
  "inv_free cfg s \<longleftrightarrow>
     uint (freeBlocks s) + wsumf pre70 (nworkers cfg) (workers s)
       \<le> int (length (handoff s))"

definition inv_mod :: "config \<Rightarrow> state \<Rightarrow> bool" where
  "inv_mod cfg s \<longleftrightarrow>
     uint (modifiedBlocks s) + wsumf ahead (nworkers cfg) (workers s)
       \<le> uint (freeBlocks s)"

definition inv_pct :: "config \<Rightarrow> state \<Rightarrow> bool" where
  "inv_pct cfg s \<longleftrightarrow>
     percent s = pct_of cfg (freeBlocks s) \<or> holder_at wat71 (mutex s) (workers s)"

definition inv_counters :: "config \<Rightarrow> state \<Rightarrow> bool" where
  "inv_counters cfg s \<longleftrightarrow>
     inv_sync cfg s \<and> inv_hand cfg s \<and> inv_free cfg s \<and> inv_mod cfg s \<and> inv_pct cfg s"

subsection \<open>Observations of a state, and concrete sweeps\<close>

definition main_view :: "state \<Rightarrow> mpc \<times> bool \<times> bool \<times> thr option" where
  "main_view s = (mpc s, quit s, do_job s, mutex s)"

definition worker_pcs :: "config \<Rightarrow> state \<Rightarrow> wpc list" where
  "worker_pcs cfg s = map (\<lambda>t. wpc (workers s t)) [0..<nworkers cfg]"

definition counters :: "state \<Rightarrow> nat \<times> nat \<times> int" where
  "counters s = (unat (freeBlocks s), unat (modifiedBlocks s), sint (runningThreads s))"

text \<open>No thread can take a step (a spurious wake-up apart).\<close>

definition stuck :: "config \<Rightarrow> state \<Rightarrow> bool" where
  "stuck cfg s =
     list_all (\<lambda>x. step cfg s (Run x 0) = None) (Main # map Worker [0..<nworkers cfg])"

definition final_view ::
  "config \<Rightarrow> state \<Rightarrow> (mpc \<times> bool \<times> bool \<times> thr option) \<times> wpc list \<times> bool" where
  "final_view cfg s = (main_view s, worker_pcs cfg s, stuck cfg s)"

text \<open>The content of the first \<open>k\<close> blocks of the device, and the history of a run.\<close>

definition blocks_view :: "config \<Rightarrow> nat \<Rightarrow> state \<Rightarrow> byte list list" where
  "blocks_view cfg k s = map (\<lambda>b. read_blk cfg (device s) (of_nat b)) [0..<k]"

definition history ::
  "state \<Rightarrow> (nat \<times> c_ulong) list \<times> (nat \<times> c_ulong \<times> io_op) list" where
  "history s = (handoff s, iolog s)"

text \<open>One worker and the one-block file system \<open>tiny_fs\<close> (block 0 is free and holds
  the bytes 7, 7); the same with an empty block range; the same in dry-run mode; the same
  with a superblock that counts no free block.\<close>

definition tiny_cfg :: config where
  "tiny_cfg = \<lparr>max_threads = 1, dryrun = False, verbose = False, fillval = 0, fs = tiny_fs\<rparr>"

definition empty_cfg :: config where
  "empty_cfg = tiny_cfg\<lparr>fs := tiny_fs\<lparr>fs_blocks_count := 0\<rparr>\<rparr>"

definition dry_cfg :: config where
  "dry_cfg = tiny_cfg\<lparr>dryrun := True\<rparr>"

definition stale_cfg :: config where
  "stale_cfg = tiny_cfg\<lparr>fs := tiny_fs\<lparr>fs_free_blocks_count := 0\<rparr>\<rparr>"

text \<open>Two workers and two free blocks; reading block 0 fails. The same volume with one
  worker and with three.\<close>

definition pair_cfg :: config where
  "pair_cfg =
     \<lparr>max_threads = 2, dryrun = False, verbose = False, fillval = 0,
      fs = tiny_fs\<lparr>fs_blocks_count := 2, fs_free_blocks_count := 2,
             fs_read_fails := (\<lambda>b. b = 0)\<rparr>\<rparr>"

definition solo_cfg :: config where
  "solo_cfg = pair_cfg\<lparr>max_threads := 1\<rparr>"

definition trio_cfg :: config where
  "trio_cfg = pair_cfg\<lparr>max_threads := 3\<rparr>"

text \<open>Two workers and three free blocks; reading block 0 and reading block 2 fail.\<close>

definition abort_cfg :: config where
  "abort_cfg =
     \<lparr>max_threads = 2, dryrun = False, verbose = False, fillval = 0,
      fs = tiny_fs\<lparr>fs_blocks_count := 3, fs_free_blocks_count := 3,
             fs_read_fails := (\<lambda>b. b = 0 \<or> b = 2)\<rparr>\<rparr>"

text \<open>One worker and four blocks: block 0 is in use, block 1 is free and already
  filled with the fill value 0, blocks 2 and 3 are free and hold other bytes.\<close>

definition quad_fs :: filesys where
  "quad_fs =
     \<lparr>fs_blocksize = 2, fs_first_data_block = 0, fs_blocks_count = 4,
      fs_free_blocks_count = 3, fs_block_map = (\<lambda>b. b = 0),
      fs_volume = (\<lambda>b i. if b = 1 then 0 else 7),
      fs_read_fails = (\<lambda>b. False), fs_write_fails = (\<lambda>b. False), fs_close_fails = False\<rparr>"

definition quad_cfg :: config where
  "quad_cfg = \<lparr>max_threads = 1, dryrun = False, verbose = False, fillval = 0, fs = quad_fs\<rparr>"

definition quad_dry_cfg :: config where
  "quad_dry_cfg = quad_cfg\<lparr>dryrun := True\<rparr>"

text \<open>Steps of \<open>main\<close> and of the workers 0, 1 and 2, for writing schedules.\<close>

definition m :: event where "m = Run Main 0"
definition w0 :: event where "w0 = Run (Worker 0) 0"
definition w1 :: event where "w1 = Run (Worker 1) 0"
definition w2 :: event where "w2 = Run (Worker 2) 0"

text \<open>Schedules. Each was found by running the model; the theorems that use one show that
  every event of it can happen.\<close>

text \<open>The empty block range: both threads run until neither can go on.\<close>

definition empty_run :: "event list" where
  "empty_run =
    [w0, w0, m, m, m, m, m, w0, w0]"

text \<open>A whole sweep of the one block.\<close>

definition tiny_run :: "event list" where
  "tiny_run =
    [w0, w0, m, m, m, m, m, m, m, w0, w0, w0, w0, w0, w0, w0, w0, w0, w0, w0, w0, w0,
     w0, w0, w0, w0, w0, w0, w0, w0, w0, w0, w0, w0, m, m, m, m, m, m, m, m, w0, w0]"

text \<open>The same sweep in dry-run mode.\<close>

definition dry_run :: "event list" where
  "dry_run =
    [w0, w0, m, m, m, m, m, m, m, w0, w0, w0, w0, w0, w0, w0, w0, w0, w0, w0, w0, w0,
     w0, w0, w0, w0, w0, w0, w0, w0, w0, w0, w0, m, m, m, m, m, m, m, m, w0, w0]"


text \<open>The same sweep in dry-run mode.\<close>

definition quad_dry_run :: "event list" where
  "quad_dry_run =
    [w0, w0, m, m, m, m, m, m, m, w0, w0, w0, w0, w0, w0, w0, w0, w0, w0, w0, w0, w0, m,
     m, m, m, m, m, m, m, m, m, w0, w0, w0, w0, w0, w0, w0, w0, w0, w0, w0, w0, w0, w0,
     w0, w0, w0, w0, w0, w0, m, m, m, m, m, m, m, m, m, m, w0, w0, w0, w0, w0, w0, w0,
     w0, w0, w0, w0, w0, w0, w0, w0, w0, w0, w0, w0, w0, w0, w0, w0, w0, m, m, m, m, m,
     m, m, m, m, m, w0, w0, w0, w0, w0, w0, w0, w0, w0, w0, w0, w0, w0, w0, w0, w0, w0,
     w0, w0, w0, w0, w0, w0, w0, m, m, m, m, m, m, m, m, w0, w0]"

text \<open>Worker 0 takes block 0 and its read fails; worker 1 takes blocks 1 and 2, rewrites
  block 1, and its read of block 2 fails; \<open>main\<close> joins both and returns.\<close>

definition abort_run :: "event list" where
  "abort_run =
    [w0, w0, m, m, m, m, m, m, m, w0, w0, w0, w0, w0, w0, w0, w0, w0, w0, w0, w0,
     w0, w0, w0, w0, w0, w0, m, m, m, m, m, m, m, m, m, m, w1, w1, w1, w1, w1, w1,
     w1, w1, m, m, m, m, m, m, m, m, m, m, w1, w1, w1, w1, w1, w1, w1, w1, w1, w1,
     w1, w1, w1, w1, w1, w1, w1, w1, w1, w1, w1, w1, w1, m, m, m, m, m, m, m, m, m,
     w1, w1, w1, w1, w1, w1, w1, w1, w1, w1, m, m, m, m]"

text \<open>Worker 0 takes block 0, its read fails, and it reads \<open>runningThreads\<close> at line 116
  (35 events); worker 1 accepts block 1 (8 events); worker 0 writes the count back, unlocks
  and returns (2 events); worker 1 and \<open>main\<close> run until neither can go on.\<close>

definition lost_run :: "event list" where
  "lost_run =
    [w0, w0, m, m, m, m, m, m, m, w0, w0, w0, w0, w0, w0, w0, w0, w0, w0, w0, w0,
     w0, w0, w0, w0, m, m, m, m, m, m, m, m, m, m, w1, w1, w1, w1, w1, w1, w1, w1,
     w0, w0, w1, w1, w1, w1, w1, w1, w1, w1, w1, w1, w1, w1, w1, w1, w1, w1, w1, m,
     m, m, m, m, m, m, m, w1, w1, m]"

text \<open>Worker 0 takes block 0, its read fails, and it stands before line 117 while \<open>main\<close>
  publishes block 1 (36 events); worker 1 takes the mutex and copies the job (4 events);
  worker 0 unlocks and returns (1 event); worker 2 takes the mutex and copies the same
  job (4 events); the three threads run until none can go on.\<close>

definition twice_run :: "event list" where
  "twice_run =
    [w0, w0, m, m, m, m, m, m, m, w0, w0, w0, w0, w0, w0, w0, w0, w0, w0, w0, w0,
     w0, w0, w0, w0, w0, m, m, m, m, m, m, m, m, m, m, w1, w1, w1, w1, w0, w2, w2,
     w2, w2, w1, w1, w1, w1, w1, w1, w1, w1, w1, w1, w1, w1, w1, w1, w1, w1, w1, w1,
     w1, w1, w1, w2, w2, w2, w2, w2, w2, w2, w2, w2, w2, w2, w2, w2, w2, w2, w2, m,
     m, m, m, m, m, m, m, w1, w1, w2, w2, m]"

text \<open>One worker: it takes block 0, its read fails and it returns; \<open>main\<close> publishes block 1
  and waits for a worker to accept it.\<close>

definition solo_run :: "event list" where
  "solo_run =
    [w0, w0, m, m, m, m, m, m, m, w0, w0, w0, w0, w0, w0, w0, w0, w0, w0, w0, w0,
     w0, w0, w0, w0, w0, w0, m, m, m, m, m, m, m, m, m, m]"

section \<open>Lemmas: start-up\<close>

lemma parse_opts_valid:
  "parse_opts os st = Inr st' \<Longrightarrow> set_fillval st \<le> 0xFF \<Longrightarrow>
     1 \<le> sint (set_max_threads st) \<Longrightarrow> sint (set_max_threads st) \<le> 1048576 \<Longrightarrow>
     set_fillval st' \<le> 0xFF \<and> 1 \<le> sint (set_max_threads st') \<and>
     sint (set_max_threads st') \<le> 1048576"
proof (induction os st rule: parse_opts.induct)
  case (4 r os st)
  then show ?case by (simp add: Let_def not_less split: if_splits)
next
  case (5 r os st)
  then show ?case by (simp add: Let_def not_less split: if_splits)
qed simp_all

lemma startup_config_valid:
  assumes "main_startup env = Start_sweep cfg cs"
  shows "fillval cfg \<le> 0xFF \<and> 1 \<le> sint (max_threads cfg) \<and> sint (max_threads cfg) \<le> 1048576"
proof -
  from assms obtain st where st: "parse_opts (env_opts env) initial_settings = Inr st"
    and cfg: "fillval cfg = set_fillval st" "max_threads cfg = set_max_threads st"
    by (auto simp: main_startup_def Let_def split: sum.splits if_splits)
  from parse_opts_valid [OF st] cfg show ?thesis
    by (simp add: initial_settings_def)
qed

text \<open>
  The part of claim C8 that holds: an option argument that is empty or has trailing
  characters, an unknown option, a stored fill value above 255, a stored thread count
  outside 1..1048576, a wrong number of positional arguments and a volume mounted
  read-write all end \<open>main\<close> with status 1 before \<open>ext2fs_open\<close> and before any thread
  is created.
\<close>

lemma startup_rejects:
  assumes "(\<exists>m. parse_opts (env_opts env) initial_settings = Inl m) \<or> env_positional env \<noteq> 1
      \<or> env_mount_check_fails env \<or> (env_mounted env \<and> \<not> env_readonly env)"
  shows "\<exists>m cs. main_startup env = Exit_with 1 m cs \<and> set cs \<subseteq> {Call_check_if_mounted}"
  using assms by (auto simp: main_startup_def Let_def split: sum.splits)


section \<open>Lemmas: runs and steps\<close>

lemma exec_append:
  "exec cfg (es @ es') s = (case exec cfg es s of None \<Rightarrow> None | Some s' \<Rightarrow> exec cfg es' s')"
  by (induction es arbitrary: s) (auto split: option.splits)

lemma exec_invariant:
  assumes "exec cfg es s0 = Some s" and "P s0"
    and "\<And>s e s'. P s \<Longrightarrow> step cfg s e = Some s' \<Longrightarrow> P s'"
  shows "P s"
  using assms(1,2)
proof (induction es arbitrary: s0)
  case Nil
  then show ?case by simp
next
  case (Cons e es)
  then show ?case by (auto split: option.splits intro: assms(3))
qed

lemmas wk_defs = worker_step_def lock_then_def unlock_then_def goto_def log_io_def
  signal_accepted_def signal_done_def Let_def

lemmas mn_defs = main_step_def lock_then_def unlock_then_def mgoto_def Let_def

lemma signal_enqueued_cases:
  "signal_enqueued cfg c s = s \<or>
   (\<exists>t < nworkers cfg. wpc (workers s t) = W55 \<and> signal_enqueued cfg c s = goto t W55r s)"
proof (cases "waiters cfg s = []")
  case True
  then show ?thesis by (simp add: signal_enqueued_def)
next
  case False
  let ?t = "waiters cfg s ! (c mod length (waiters cfg s))"
  from False have "?t \<in> set (waiters cfg s)" by simp
  then have "?t < nworkers cfg \<and> wpc (workers s ?t) = W55"
    by (simp add: waiters_def)
  with False show ?thesis by (auto simp: signal_enqueued_def Let_def)
qed

text \<open>What a step of another thread can do to a worker: nothing, or wake it.\<close>

lemma signal_enqueued_worker:
  "workers (signal_enqueued cfg c s) t = workers s t \<or>
   (wpc (workers s t) = W55 \<and> workers (signal_enqueued cfg c s) t = (workers s t)\<lparr>wpc := W55r\<rparr>)"
  using signal_enqueued_cases [of cfg c s] by (auto simp: goto_def split: if_splits)

lemma signal_enqueued_fields [simp]:
  "mutex (signal_enqueued cfg c s) = mutex s"
  "quit (signal_enqueued cfg c s) = quit s"
  "do_job (signal_enqueued cfg c s) = do_job s"
  "job_block_num (signal_enqueued cfg c s) = job_block_num s"
  "runningThreads (signal_enqueued cfg c s) = runningThreads s"
  "freeBlocks (signal_enqueued cfg c s) = freeBlocks s"
  "modifiedBlocks (signal_enqueued cfg c s) = modifiedBlocks s"
  "percent (signal_enqueued cfg c s) = percent s"
  "device (signal_enqueued cfg c s) = device s"
  "mpc (signal_enqueued cfg c s) = mpc s"
  "mblk (signal_enqueued cfg c s) = mblk s"
  "handoff (signal_enqueued cfg c s) = handoff s"
  "iolog (signal_enqueued cfg c s) = iolog s"
  by (simp_all add: signal_enqueued_def Let_def goto_def)

lemma main_step_worker:
  assumes "main_step cfg c s = Some s'"
  shows "workers s' t = workers s t \<or>
    (wpc (workers s t) = W55 \<and> workers s' t = (workers s t)\<lparr>wpc := W55r\<rparr>)"
proof (cases "mpc s = M242")
  case True
  with assms have "s' = mgoto M243 (signal_enqueued cfg c s)" by (simp add: main_step_def)
  with signal_enqueued_worker [of cfg c s t] show ?thesis by (simp add: mgoto_def)
next
  case False
  have "main_step cfg c s \<noteq> None \<longrightarrow> (workers (the (main_step cfg c s)) t = workers s t \<or>
    (wpc (workers s t) = W55 \<and> workers (the (main_step cfg c s)) t = (workers s t)\<lparr>wpc := W55r\<rparr>))"
    using False by (cases "mpc s") (auto simp: mn_defs broadcast_enqueued_def)
  with assms show ?thesis by simp
qed

text \<open>A step of a worker adds at most one entry to the log; a step of \<open>main\<close> and a
  spurious wake-up add none.\<close>

lemma worker_step_log:
  assumes "worker_step cfg t c s = Some s'"
  shows "iolog s' = iolog s \<or> (\<exists>j ev. iolog s' = iolog s @ [(t, j, ev)])"
proof -
  have "worker_step cfg t c s \<noteq> None \<longrightarrow>
    (iolog (the (worker_step cfg t c s)) = iolog s \<or>
     (\<exists>j ev. iolog (the (worker_step cfg t c s)) = iolog s @ [(t, j, ev)]))"
    by (cases "wpc (workers s t)") (auto simp: wk_defs)
  with assms show ?thesis by simp
qed

lemma main_step_log:
  assumes "main_step cfg c s = Some s'"
  shows "iolog s' = iolog s"
proof -
  have "main_step cfg c s \<noteq> None \<longrightarrow> iolog (the (main_step cfg c s)) = iolog s"
    by (cases "mpc s") (auto simp: mn_defs broadcast_enqueued_def)
  with assms show ?thesis by simp
qed

lemma spurious_log:
  assumes "spurious cfg x s = Some s'"
  shows "iolog s' = iolog s"
  using assms by (cases x) (auto simp: spurious_def mgoto_def goto_def split: if_splits)

lemma step_log:
  assumes "step cfg s e = Some s'"
  shows "\<exists>l. iolog s' = iolog s @ l"
proof (cases e)
  case (Run x c)
  show ?thesis
  proof (cases x)
    case Main
    with Run assms main_step_log [of cfg c s s'] show ?thesis by (simp add: step_def)
  next
    case (Worker t)
    with Run assms worker_step_log [of cfg t c s s'] show ?thesis
      by (auto simp: step_def split: if_splits)
  qed
next
  case (Spurious x)
  with assms spurious_log [of cfg x s s'] show ?thesis by (simp add: step_def)
qed

lemma step_error_free:
  assumes "step cfg s e = Some s'" "error_free s'"
  shows "error_free s"
  using step_log [OF assms(1)] assms(2) by (auto simp: error_free_def)

text \<open>An invariant of the runs without an error report: it is enough that a step
  keeps it when no error has been reported after the step.\<close>

lemma exec_error_free_invariant:
  assumes "exec cfg es s0 = Some s" and "error_free s" and "P s0"
    and "\<And>s e s'. P s \<Longrightarrow> step cfg s e = Some s' \<Longrightarrow> error_free s' \<Longrightarrow> P s'"
  shows "P s"
proof -
  have "error_free s \<longrightarrow> P s"
  proof (rule exec_invariant [OF assms(1), where P = "\<lambda>s. error_free s \<longrightarrow> P s"])
    show "error_free s0 \<longrightarrow> P s0" using assms(3) by simp
  next
    fix s e s'
    assume "error_free s \<longrightarrow> P s" "step cfg s e = Some s'"
    then show "error_free s' \<longrightarrow> P s'"
      using step_error_free [of cfg s e s'] assms(4) [of s e s'] by blast
  qed
  with assms(2) show ?thesis by simp
qed

section \<open>Lemmas: the mutex and the flags\<close>

lemma wsees_wheld: "wsees p \<Longrightarrow> wheld p"
  by (cases p) simp_all

text \<open>Line 56 never sees \<open>quit\<close>, and the two error exits leave a report: a worker
  stays inside its loop as long as no report has been made.\<close>

lemma sync_w_self:
  assumes "sync_g s" "sync_w s t" "worker_step cfg t c s = Some s'" "error_free s'"
  shows "sync_w s' t"
proof -
  have "worker_step cfg t c s \<noteq> None \<longrightarrow> error_free (the (worker_step cfg t c s)) \<longrightarrow>
      sync_w (the (worker_step cfg t c s)) t"
    using assms(1,2)
    by (cases "wpc (workers s t)") (auto simp: wk_defs sync_w_def sync_g_def error_free_def)
  with assms(3,4) show ?thesis by simp
qed

lemma sync_w_other:
  assumes "sync_g s" "sync_w s t" "sync_w s t'" "t' \<noteq> t" "worker_step cfg t c s = Some s'"
  shows "sync_w s' t'"
proof -
  have "worker_step cfg t c s \<noteq> None \<longrightarrow> sync_w (the (worker_step cfg t c s)) t'"
    using assms(1-4)
    by (cases "wpc (workers s t)") (auto simp: wk_defs sync_w_def sync_g_def dest: wsees_wheld)
  with assms(5) show ?thesis by simp
qed

lemma sync_g_worker:
  assumes "sync_g s" "sync_w s t" "worker_step cfg t c s = Some s'"
  shows "sync_g s'"
proof -
  have "worker_step cfg t c s \<noteq> None \<longrightarrow> sync_g (the (worker_step cfg t c s))"
    using assms(1,2) by (cases "wpc (workers s t)") (auto simp: wk_defs sync_w_def sync_g_def)
  with assms(3) show ?thesis by simp
qed

lemma holder_worker:
  assumes "holder_ok cfg s" "t < nworkers cfg" "worker_step cfg t c s = Some s'"
  shows "holder_ok cfg s'"
proof -
  have "worker_step cfg t c s \<noteq> None \<longrightarrow> holder_ok cfg (the (worker_step cfg t c s))"
    using assms(1,2) by (cases "wpc (workers s t)") (auto simp: wk_defs holder_ok_def)
  with assms(3) show ?thesis by simp
qed

lemma sync_g_main:
  assumes "sync_g s" "main_step cfg c s = Some s'"
  shows "sync_g s'"
proof -
  have "main_step cfg c s \<noteq> None \<longrightarrow> sync_g (the (main_step cfg c s))"
    using assms(1) by (cases "mpc s") (auto simp: mn_defs sync_g_def broadcast_enqueued_def)
  with assms(2) show ?thesis by simp
qed

lemma main_step_frame:
  assumes "main_step cfg c s = Some s'" "sync_g s"
  shows "(mutex s' = mutex s \<or> (mutex s = None \<and> mutex s' = Some Main)
          \<or> (mutex s = Some Main \<and> mutex s' = None))
       \<and> (do_job s' = do_job s \<or> do_job s')"
proof -
  have "main_step cfg c s \<noteq> None \<longrightarrow>
     ((mutex (the (main_step cfg c s)) = mutex s \<or> (mutex s = None \<and> mutex (the (main_step cfg c s)) = Some Main)
          \<or> (mutex s = Some Main \<and> mutex (the (main_step cfg c s)) = None))
       \<and> (do_job (the (main_step cfg c s)) = do_job s \<or> do_job (the (main_step cfg c s))))"
    using assms(2) by (cases "mpc s") (auto simp: mn_defs broadcast_enqueued_def sync_g_def)
  with assms(1) show ?thesis by simp
qed

lemma sync_w_main:
  assumes "sync_w s t" "main_step cfg c s = Some s'" "sync_g s"
  shows "sync_w s' t"
  using assms(1) main_step_frame [OF assms(2,3)] main_step_worker [OF assms(2), of t]
  by (auto simp: sync_w_def)

lemma holder_main:
  assumes "holder_ok cfg s" "main_step cfg c s = Some s'" "sync_g s"
  shows "holder_ok cfg s'"
  using assms(1) main_step_frame [OF assms(2,3)]
  by (auto simp: holder_ok_def split: option.splits thr.splits)

lemma sync_w_spurious:
  assumes "sync_w s t" "spurious cfg x s = Some s'"
  shows "sync_w s' t"
  using assms
  by (cases x) (auto simp: sync_w_def spurious_def mgoto_def goto_def split: if_splits)

lemma sync_g_spurious:
  assumes "sync_g s" "spurious cfg x s = Some s'"
  shows "sync_g s'"
  using assms
  by (cases x) (auto simp: sync_g_def spurious_def mgoto_def goto_def split: if_splits)

lemma holder_spurious:
  assumes "holder_ok cfg s" "spurious cfg x s = Some s'"
  shows "holder_ok cfg s'"
  using assms
  by (cases x) (auto simp: holder_ok_def spurious_def mgoto_def goto_def split: if_splits)

lemma inv_sync_spurious:
  assumes "inv_sync cfg s" "spurious cfg x s = Some s'"
  shows "inv_sync cfg s'"
  using assms(1) sync_g_spurious [OF _ assms(2)] sync_w_spurious [OF _ assms(2)]
    holder_spurious [OF _ assms(2)]
  by (simp add: inv_sync_def)

lemma inv_sync_init: "inv_sync cfg (init cfg)"
  by (simp add: inv_sync_def sync_g_def sync_w_def holder_ok_def init_def)

lemma inv_sync_step:
  assumes "inv_sync cfg s" "step cfg s e = Some s'" "error_free s'"
  shows "inv_sync cfg s'"
proof (cases e)
  case (Run x c)
  show ?thesis
  proof (cases x)
    case Main
    with Run assms(2) have m: "main_step cfg c s = Some s'"
      by (simp add: step_def split: if_splits)
    from assms(1) have g: "sync_g s" by (simp add: inv_sync_def)
    from assms(1) sync_g_main [OF _ m] sync_w_main [OF _ m g] holder_main [OF _ m g]
    show ?thesis by (simp add: inv_sync_def)
  next
    case (Worker t)
    with Run assms(2) have t: "t < nworkers cfg" and w: "worker_step cfg t c s = Some s'"
      by (simp_all add: step_def split: if_splits)
    from assms(1) t have g: "sync_g s" and st: "sync_w s t" by (simp_all add: inv_sync_def)
    have "sync_w s' t'" if "t' < nworkers cfg" for t'
    proof (cases "t' = t")
      case True
      with sync_w_self [OF g st w assms(3)] show ?thesis by simp
    next
      case False
      from assms(1) that have "sync_w s t'" by (simp add: inv_sync_def)
      from sync_w_other [OF g st this False w] show ?thesis .
    qed
    moreover from assms(1) have "holder_ok cfg s"
      by (simp add: inv_sync_def)
    note holder_worker [OF this t w]
    ultimately show ?thesis using sync_g_worker [OF g st w] by (simp add: inv_sync_def)
  qed
next
  case (Spurious x)
  with assms(2) have "spurious cfg x s = Some s'" by (simp add: step_def split: if_splits)
  with assms(1) show ?thesis by (rule inv_sync_spurious)
qed

lemma inv_sync_exec:
  assumes "exec cfg es (init cfg) = Some s" "error_free s"
  shows "inv_sync cfg s"
  using assms
  by (rule exec_error_free_invariant [where P = "inv_sync cfg"])
    (rule inv_sync_init, rule inv_sync_step)

section \<open>Lemmas: the integer conversions\<close>

lemma uint_worker_blk: "uint j < 2 ^ 32 \<Longrightarrow> uint (worker_blk j) = uint j"
  by (simp add: worker_blk_def unsigned_ucast_eq take_bit_int_eq_self)


lemma sint_io_block: "sint (io_block b) = sint b"
  unfolding io_block_def by (rule sint_up_scast) (simp add: is_up)

lemma io_block_inj:
  assumes "uint j < 2 ^ 32" "uint j' < 2 ^ 32" "io_block (worker_blk j) = io_block (worker_blk j')"
  shows "j = j'"
proof -
  from assms(3) have "sint (io_block (worker_blk j)) = sint (io_block (worker_blk j'))" by simp
  then have "sint (worker_blk j) = sint (worker_blk j')" by (simp only: sint_io_block)
  then have "worker_blk j = worker_blk j'" by (rule signed_word_eqI)
  then have "uint (worker_blk j) = uint (worker_blk j')" by simp
  with assms(1,2) have "uint j = uint j'" by (simp add: uint_worker_blk)
  then show ?thesis by (rule word_uint_eqI)
qed


lemma sint_succ32:
  assumes "sint (x :: 32 word) < 2147483647"
  shows "sint (x + 1) = sint x + 1"
proof -
  have "- (2 ^ 31) \<le> sint x" using sint_ge [of x] by simp
  with assms have "signed_take_bit 31 (sint x + 1) = sint x + 1"
    by (intro signed_take_bit_int_eq_self) simp_all
  then show ?thesis by (simp add: sint_word_ariths)
qed

lemma sint_pred32:
  assumes "- 2147483648 < sint (x :: 32 word)"
  shows "sint (x - 1) = sint x - 1"
proof -
  have "sint x < 2 ^ 31" using sint_lt [of x] by simp
  with assms have "signed_take_bit 31 (sint x - 1) = sint x - 1"
    by (intro signed_take_bit_int_eq_self) simp_all
  then show ?thesis by (simp add: sint_word_ariths)
qed

lemma unat_succ32: "unat (x :: 32 word) < 4294967295 \<Longrightarrow> unat (x + 1) = unat x + 1"
  using unat_add_lem [of x 1] by simp

lemma unat_succ64: "unat (x :: 64 word) < 4294967296 \<Longrightarrow> unat (x + 1) = unat x + 1"
  using unat_add_lem [of x 1] by simp

lemma unat_ucast_32_64: "unat (ucast (x :: 32 word) :: 64 word) = unat x"
  by (simp add: unsigned_ucast_eq take_bit_nat_eq_self unsigned_less [of x, simplified] less_trans [OF unsigned_less [of x]])

lemma less_ucast_32_64: "((y :: 64 word) < ucast (x :: 32 word)) = (unat y < unat x)"
  by (simp add: word_less_nat_alt unat_ucast_32_64)

section \<open>Lemmas: sums over the workers\<close>

lemma wsumf_upd:
  assumes "t < n"
  shows "wsumf f n (W(t := w)) = wsumf f n W + (f w - f (W t))"
proof -
  have fin: "finite {..<n}" by simp
  from assms have mem: "t \<in> {..<n}" by simp
  have "(\<Sum>i<n. f ((W(t := w)) i)) = f w + (\<Sum>i\<in>{..<n} - {t}. f ((W(t := w)) i))"
    using sum.remove [OF fin mem, of "\<lambda>i. f ((W(t := w)) i)"] by simp
  moreover have "(\<Sum>i\<in>{..<n} - {t}. f ((W(t := w)) i)) = (\<Sum>i\<in>{..<n} - {t}. f (W i))"
    by (rule sum.cong) auto
  moreover have "(\<Sum>i<n. f (W i)) = f (W t) + (\<Sum>i\<in>{..<n} - {t}. f (W i))"
    using sum.remove [OF fin mem, of "\<lambda>i. f (W i)"] by simp
  ultimately show ?thesis by (simp add: wsumf_def)
qed

lemma wsumf_cong:
  "(\<And>t. t < n \<Longrightarrow> f (W' t) = f (W t)) \<Longrightarrow> wsumf f n W' = wsumf f n W"
  by (simp add: wsumf_def)

lemma wsumf_nonneg: "(\<And>w. 0 \<le> f w) \<Longrightarrow> 0 \<le> wsumf f n W"
  by (simp add: wsumf_def sum_nonneg)

lemma wsumf_le: "(\<And>w. f w \<le> 1) \<Longrightarrow> wsumf f n W \<le> int n"
proof -
  assume a: "\<And>w. f w \<le> 1"
  have "(\<Sum>t<n. f (W t)) \<le> (\<Sum>t<n. 1)" by (rule sum_mono) (rule a)
  then show ?thesis by (simp add: wsumf_def)
qed

lemma wsumf_member: "(\<And>w. 0 \<le> f w) \<Longrightarrow> t < n \<Longrightarrow> f (W t) \<le> wsumf f n W"
proof -
  assume a: "\<And>w. 0 \<le> f w" and t: "t < n"
  have "wsumf f n (W(t := W t)) = wsumf f n W" by simp
  have "(\<Sum>i<n. f (W i)) = f (W t) + (\<Sum>i\<in>{..<n} - {t}. f (W i))"
    using sum.remove [of "{..<n}" t "\<lambda>i. f (W i)"] t by simp
  moreover have "0 \<le> (\<Sum>i\<in>{..<n} - {t}. f (W i))" by (rule sum_nonneg) (rule a)
  ultimately show ?thesis by (simp add: wsumf_def)
qed

lemma wsumf_zero: "(\<And>t. t < n \<Longrightarrow> f (W t) = 0) \<Longrightarrow> wsumf f n W = 0"
  by (simp add: wsumf_def)

lemma nworkers_le: "int (nworkers cfg) \<le> 2147483647"
  using sint_lt [of "max_threads cfg"] by (simp add: nworkers_def)

lemma active_bounds: "0 \<le> active w" "active w \<le> 1"
  by (simp_all add: active_def)

lemma active_room:
  assumes "t < n" "\<not> wactive (wpc (W t))"
  shows "wsumf active n W < int n"
proof -
  have "wsumf active n (W(t := (W t)\<lparr>wpc := W60\<rparr>)) \<le> int n"
    by (rule wsumf_le) (rule active_bounds)
  with assms show ?thesis by (simp add: wsumf_upd active_def)
qed

lemma active_present:
  assumes "t < n" "wactive (wpc (W t))"
  shows "0 < wsumf active n W"
proof -
  have "active (W t) \<le> wsumf active n W"
    by (rule wsumf_member) (rule active_bounds, rule assms(1))
  with assms(2) show ?thesis by (simp add: active_def)
qed

section \<open>Lemmas: the count of running threads\<close>

text \<open>What \<open>main\<close> and a wake-up leave alone.\<close>

lemma main_step_keeps:
  assumes "main_step cfg c s = Some s'"
  shows "runningThreads s' = runningThreads s \<and> freeBlocks s' = freeBlocks s \<and>
     modifiedBlocks s' = modifiedBlocks s \<and> percent s' = percent s \<and> device s' = device s \<and>
     handoff s' = handoff s \<and> iolog s' = iolog s"
proof -
  let ?s = "the (main_step cfg c s)"
  have "main_step cfg c s \<noteq> None \<longrightarrow>
     (runningThreads ?s = runningThreads s \<and> freeBlocks ?s = freeBlocks s \<and>
     modifiedBlocks ?s = modifiedBlocks s \<and> percent ?s = percent s \<and> device ?s = device s \<and>
     handoff ?s = handoff s \<and> iolog ?s = iolog s)"
    by (cases "mpc s") (auto simp: mn_defs broadcast_enqueued_def)
  with assms show ?thesis by simp
qed

lemma spurious_keeps:
  assumes "spurious cfg x s = Some s'"
  shows "mutex s' = mutex s \<and> quit s' = quit s \<and> do_job s' = do_job s \<and>
     job_block_num s' = job_block_num s \<and> mblk s' = mblk s \<and>
     runningThreads s' = runningThreads s \<and> freeBlocks s' = freeBlocks s \<and>
     modifiedBlocks s' = modifiedBlocks s \<and> percent s' = percent s \<and> device s' = device s \<and>
     handoff s' = handoff s \<and> iolog s' = iolog s"
  using assms by (cases x) (auto simp: spurious_def mgoto_def goto_def split: if_splits)

lemma spurious_worker:
  assumes "spurious cfg x s = Some s'"
  shows "workers s' t = workers s t \<or>
    (wpc (workers s t) = W55 \<and> workers s' t = (workers s t)\<lparr>wpc := W55r\<rparr>)"
  using assms by (cases x) (auto simp: spurious_def mgoto_def goto_def split: if_splits)

lemma spurious_mpc:
  assumes "spurious cfg x s = Some s'"
  shows "mpc s' = mpc s \<or> (mpc s = M239 \<and> mpc s' = M239r) \<or> (mpc s = M244 \<and> mpc s' = M244r)"
  using assms by (cases x) (auto simp: spurious_def mgoto_def goto_def split: if_splits)

lemma inv_count_woken:
  assumes "inv_count cfg s" "runningThreads s' = runningThreads s"
    "\<And>t. workers s' t = workers s t \<or>
      (wpc (workers s t) = W55 \<and> workers s' t = (workers s t)\<lparr>wpc := W55r\<rparr>)"
  shows "inv_count cfg s'"
proof -
  have "wsumf active (nworkers cfg) (workers s') = wsumf active (nworkers cfg) (workers s)"
  proof (rule wsumf_cong)
    fix t
    from assms(3) [of t] show "active (workers s' t) = active (workers s t)"
      by (auto simp: active_def)
  qed
  with assms(1,2) show ?thesis by (simp add: inv_count_def)
qed

lemma inv_count_worker:
  assumes "inv_count cfg s" "sync_g s" "sync_w s t" "t < nworkers cfg"
    "worker_step cfg t c s = Some s'"
  shows "inv_count cfg s'"
proof -
  let ?n = "nworkers cfg"
  have lo: "0 \<le> wsumf active ?n (workers s)"
    by (rule wsumf_nonneg) (rule active_bounds)
  have room: "\<not> wactive (wpc (workers s t)) \<Longrightarrow> sint (runningThreads s) < 2147483647"
    using active_room [OF assms(4), of "workers s"] nworkers_le [of cfg] assms(1)
    by (simp add: inv_count_def)
  have pos: "- 2147483648 < sint (runningThreads s)"
    using lo assms(1) by (simp add: inv_count_def)
  have eq: "sint (runningThreads s) = wsumf active ?n (workers s)"
    using assms(1) by (simp add: inv_count_def)
  have "worker_step cfg t c s \<noteq> None \<longrightarrow> inv_count cfg (the (worker_step cfg t c s))"
    using assms(2,3,4) eq room pos
    by (cases "wpc (workers s t)")
       (auto simp: wk_defs inv_count_def wsumf_upd active_def sint_succ32 sint_pred32
          sync_w_def sync_g_def)
  with assms(5) show ?thesis by simp
qed

lemma inv_count_step:
  assumes "inv_count cfg s" "inv_sync cfg s" "step cfg s e = Some s'"
  shows "inv_count cfg s'"
proof (cases e)
  case (Run x c)
  show ?thesis
  proof (cases x)
    case Main
    with Run assms(3) have m: "main_step cfg c s = Some s'"
      by (simp add: step_def split: if_splits)
    from main_step_keeps [OF m] main_step_worker [OF m] assms(1) show ?thesis
      by (intro inv_count_woken [of cfg s s']) simp_all
  next
    case (Worker t)
    with Run assms(3) have t: "t < nworkers cfg" and w: "worker_step cfg t c s = Some s'"
      by (simp_all add: step_def split: if_splits)
    from assms(2) t have "sync_g s" "sync_w s t" by (simp_all add: inv_sync_def)
    from inv_count_worker [OF assms(1) this t w] show ?thesis .
  qed
next
  case (Spurious x)
  with assms(3) have sp: "spurious cfg x s = Some s'" by (simp add: step_def split: if_splits)
  from spurious_keeps [OF sp] spurious_worker [OF sp] assms(1) show ?thesis
    by (intro inv_count_woken [of cfg s s']) simp_all
qed

lemma inv_count_init: "inv_count cfg (init cfg)"
  by (simp add: inv_count_def init_def wsumf_def active_def)

lemma wsumf_active_card:
  "wsumf active n W = int (card {t. t < n \<and> wactive (wpc (W t))})"
proof -
  have "(\<Sum>t<n. active (W t)) = (\<Sum>t\<in>{..<n}. if wactive (wpc (W t)) then 1 else 0)"
    by (simp add: active_def)
  also have "\<dots> = int (card ({..<n} \<inter> {t. wactive (wpc (W t))}))"
    by (simp add: sum.If_cases)
  also have "{..<n} \<inter> {t. wactive (wpc (W t))} = {t. t < n \<and> wactive (wpc (W t))}"
    by auto
  finally show ?thesis by (simp add: wsumf_def)
qed

section \<open>Lemmas: admission and joining\<close>

lemma madmitted_mheld: "madmitted p \<Longrightarrow> mheld p"
  by (cases p) simp_all

lemma inv_admit_worker:
  assumes "inv_admit cfg s" "inv_count cfg s" "sync_g s" "sync_w s t" "t < nworkers cfg"
    "worker_step cfg t c s = Some s'"
  shows "inv_admit cfg s'"
proof -
  have pos: "wactive (wpc (workers s t)) \<Longrightarrow> - 2147483648 < sint (runningThreads s)"
    using active_present [OF assms(5), of "workers s"] assms(2) by (simp add: inv_count_def)
  have "worker_step cfg t c s \<noteq> None \<longrightarrow> inv_admit cfg (the (worker_step cfg t c s))"
    using assms(1,3,4) pos
    by (cases "wpc (workers s t)")
       (auto simp: wk_defs inv_admit_def sint_pred32 sync_w_def sync_g_def
          dest: madmitted_mheld)
  with assms(6) show ?thesis by simp
qed

lemma inv_admit_main:
  assumes "inv_admit cfg s" "main_step cfg c s = Some s'"
  shows "inv_admit cfg s'"
proof -
  have "main_step cfg c s \<noteq> None \<longrightarrow> inv_admit cfg (the (main_step cfg c s))"
    using assms(1)
    by (cases "mpc s") (auto simp: mn_defs inv_admit_def broadcast_enqueued_def)
  with assms(2) show ?thesis by simp
qed

lemma inv_admit_spurious:
  assumes "inv_admit cfg s" "spurious cfg x s = Some s'"
  shows "inv_admit cfg s'"
  using assms(1) spurious_keeps [OF assms(2)] spurious_mpc [OF assms(2)]
  by (auto simp: inv_admit_def)

lemma mjoined_M251 [simp]: "mjoined (M251 i) = (i \<noteq> 0)"
  by (cases i) simp_all

lemma inv_join_main:
  assumes "inv_join cfg s" "inv_sync cfg s" "main_step cfg c s = Some s'"
  shows "inv_join cfg s'"
proof -
  have w0: "0 < nworkers cfg \<Longrightarrow> wpc (workers s 0) \<noteq> W_returned"
    using assms(2) by (auto simp: inv_sync_def sync_w_def)
  have "main_step cfg c s \<noteq> None \<longrightarrow> inv_join cfg (the (main_step cfg c s))"
    using assms(1) w0
    by (cases "mpc s") (auto simp: mn_defs inv_join_def broadcast_enqueued_def)
  with assms(3) show ?thesis by simp
qed

lemma worker_step_mpc:
  assumes "worker_step cfg t c s = Some s'"
  shows "mpc s' = mpc s \<or> (mpc s = M239 \<and> mpc s' = M239r) \<or> (mpc s = M244 \<and> mpc s' = M244r)"
proof -
  let ?s = "the (worker_step cfg t c s)"
  have "worker_step cfg t c s \<noteq> None \<longrightarrow>
    (mpc ?s = mpc s \<or> (mpc s = M239 \<and> mpc ?s = M239r) \<or> (mpc s = M244 \<and> mpc ?s = M244r))"
    by (cases "wpc (workers s t)") (auto simp: wk_defs)
  with assms show ?thesis by simp
qed

lemma inv_join_step:
  assumes "inv_join cfg s" "inv_sync cfg s" "step cfg s e = Some s'"
  shows "inv_join cfg s'"
proof (cases e)
  case (Run x c)
  show ?thesis
  proof (cases x)
    case Main
    with Run assms(3) have "main_step cfg c s = Some s'"
      by (simp add: step_def split: if_splits)
    with assms(1,2) show ?thesis by (rule inv_join_main)
  next
    case (Worker t)
    with Run assms(3) have "worker_step cfg t c s = Some s'"
      by (simp_all add: step_def split: if_splits)
    from worker_step_mpc [OF this] assms(1) show ?thesis by (auto simp: inv_join_def)
  qed
next
  case (Spurious x)
  with assms(3) have "spurious cfg x s = Some s'" by (simp add: step_def split: if_splits)
  from spurious_mpc [OF this] assms(1) show ?thesis by (auto simp: inv_join_def)
qed

lemma inv_admit_step:
  assumes "inv_admit cfg s" "inv_count cfg s" "inv_sync cfg s" "step cfg s e = Some s'"
  shows "inv_admit cfg s'"
proof (cases e)
  case (Run x c)
  show ?thesis
  proof (cases x)
    case Main
    with Run assms(4) have "main_step cfg c s = Some s'"
      by (simp add: step_def split: if_splits)
    with assms(1) show ?thesis by (rule inv_admit_main)
  next
    case (Worker t)
    with Run assms(4) have t: "t < nworkers cfg" and w: "worker_step cfg t c s = Some s'"
      by (simp_all add: step_def split: if_splits)
    from assms(3) t have "sync_g s" "sync_w s t" by (simp_all add: inv_sync_def)
    from inv_admit_worker [OF assms(1,2) this t w] show ?thesis .
  qed
next
  case (Spurious x)
  with assms(4) have "spurious cfg x s = Some s'" by (simp add: step_def split: if_splits)
  with assms(1) show ?thesis by (rule inv_admit_spurious)
qed

lemma inv_basic_exec:
  assumes "exec cfg es (init cfg) = Some s" "error_free s"
  shows "inv_basic cfg s"
  using assms
proof (rule exec_error_free_invariant [where P = "inv_basic cfg"])
  have "inv_admit cfg (init cfg)" "inv_join cfg (init cfg)"
    by (simp_all add: inv_admit_def inv_join_def init_def)
  then show "inv_basic cfg (init cfg)"
    by (simp add: inv_basic_def inv_sync_init inv_count_init)
next
  fix s e s'
  assume a: "inv_basic cfg s" and st: "step cfg s e = Some s'" and ef: "error_free s'"
  from a have i: "inv_sync cfg s" "inv_count cfg s" "inv_admit cfg s" "inv_join cfg s"
    by (simp_all add: inv_basic_def)
  from inv_sync_step [OF i(1) st ef] inv_count_step [OF i(2,1) st]
    inv_admit_step [OF i(3,2,1) st] inv_join_step [OF i(4,1) st]
  show "inv_basic cfg s'" by (simp add: inv_basic_def)
qed

section \<open>Lemmas: evaluating concrete runs\<close>

lemmas run_defs = step_def worker_step_def main_step_def spurious_def lock_then_def
  unlock_then_def goto_def mgoto_def signal_enqueued_def broadcast_enqueued_def
  signal_accepted_def signal_done_def waiters_def nworkers_def log_io_def read_blk_def
  write_blk_def empty_buf_def worker_blk_def test_block_def io_block_def init_def
  m_def w0_def w1_def w2_def Let_def upt_rec scan_buf.simps

lemmas view_defs = final_view_def main_view_def worker_pcs_def counters_def stuck_def
  blocks_view_def history_def

lemma tiny_startup: "main_startup (env_with []) = Start_sweep tiny_cfg all_calls"
  by (simp add: main_startup_def env_with_def initial_settings_def nworkers_def
      all_calls_def tiny_cfg_def Let_def)


section \<open>Lemmas: the jobs handed over\<close>

lemma holder_at_simps [simp]:
  "holder_at P None W = False"
  "holder_at P (Some Main) W = False"
  "holder_at P (Some (Worker t)) W = P (wpc (W t))"
  by (simp_all add: holder_at_def)

lemma holder_at_upd [simp]:
  "h \<noteq> Some (Worker t) \<Longrightarrow> holder_at P h (W(t := w)) = holder_at P h W"
  by (auto simp: holder_at_def split: option.splits thr.splits)

lemma holder_at_woken:
  assumes "\<And>t. W' t = W t \<or> (wpc (W t) = W55 \<and> W' t = (W t)\<lparr>wpc := W55r\<rparr>)"
    and "\<not> P W55" "\<not> P W55r"
  shows "holder_at P h W' = holder_at P h W"
proof (cases h)
  case None
  then show ?thesis by simp
next
  case (Some x)
  show ?thesis
  proof (cases x)
    case Main
    with Some show ?thesis by simp
  next
    case (Worker t)
    with Some assms(1) [of t] assms(2,3) show ?thesis by auto
  qed
qed

lemma less_blocks_count:
  "((b :: c_ulong) < ucast (fs_blocks_count (fs cfg))) = (unat b < last_block cfg)"
  by (simp add: less_ucast_32_64 last_block_def)

lemma last_block_bound: "last_block cfg < 4294967296"
  using unsigned_less [of "fs_blocks_count (fs cfg)", where 'a = nat] by (simp add: last_block_def)

lemma worker_step_handoff:
  assumes "worker_step cfg t c s = Some s'"
  shows "(wpc (workers s t) \<noteq> W58 \<and> handoff s' = handoff s) \<or>
     (wpc (workers s t) = W58 \<and> wpc (workers s' t) = W59 \<and>
      wjob (workers s' t) = job_block_num s \<and> handoff s' = handoff s @ [(t, job_block_num s)])"
proof -
  let ?s = "the (worker_step cfg t c s)"
  have "worker_step cfg t c s \<noteq> None \<longrightarrow> ((wpc (workers s t) \<noteq> W58 \<and> handoff ?s = handoff s) \<or>
     (wpc (workers s t) = W58 \<and> wpc (workers ?s t) = W59 \<and>
      wjob (workers ?s t) = job_block_num s \<and> handoff ?s = handoff s @ [(t, job_block_num s)]))"
    by (cases "wpc (workers s t)") (auto simp: wk_defs)
  with assms show ?thesis by simp
qed

lemma worker_step_delta:
  assumes "sync_g s" "sync_w s t" "worker_step cfg t c s = Some s'"
  shows "(wpc (workers s t) \<noteq> W58 \<and> delta s' = delta s) \<or>
     (wpc (workers s t) = W58 \<and> delta s = 0 \<and> delta s' = 1 \<and> job_block_num s = mblk s)"
proof -
  let ?s = "the (worker_step cfg t c s)"
  have "worker_step cfg t c s \<noteq> None \<longrightarrow> ((wpc (workers s t) \<noteq> W58 \<and> delta ?s = delta s) \<or>
     (wpc (workers s t) = W58 \<and> delta s = 0 \<and> delta ?s = 1 \<and> job_block_num s = mblk s))"
    using assms(1,2)
    by (cases "wpc (workers s t)") (auto simp: wk_defs delta_def sync_w_def sync_g_def)
  with assms(3) show ?thesis by simp
qed

lemma worker_step_mblk:
  assumes "worker_step cfg t c s = Some s'"
  shows "mblk s' = mblk s"
proof -
  have "worker_step cfg t c s \<noteq> None \<longrightarrow> mblk (the (worker_step cfg t c s)) = mblk s"
    by (cases "wpc (workers s t)") (auto simp: wk_defs)
  with assms show ?thesis by simp
qed

lemma hand_g_worker:
  assumes "hand_g cfg s" "sync_g s" "sync_w s t" "worker_step cfg t c s = Some s'"
  shows "hand_g cfg s'"
proof -
  from worker_step_mpc [OF assms(4)]
  have p: "minloop (mpc s') = minloop (mpc s)" "(mpc s' = M236) = (mpc s = M236)" by auto
  from worker_step_delta [OF assms(2-4)] worker_step_handoff [OF assms(4)]
  have "job_numbers s' = [first_block cfg ..< unat (mblk s) + delta s']"
    using assms(1) by (auto simp: hand_g_def job_numbers_def)
  with p worker_step_mblk [OF assms(4)] assms(1) show ?thesis by (simp add: hand_g_def)
qed

lemma main_step_delta:
  assumes "sync_g s" "main_step cfg c s = Some s'"
  shows "(mpc s = M245 \<and> mpc s' = M236 \<and> mblk s' = mblk s + 1 \<and> delta s = 1 \<and> delta s' = 0) \<or>
     (mpc s \<noteq> M245 \<and> mblk s' = mblk s \<and> delta s' = delta s \<and>
      (mpc s = M236 \<and> mblk s < ucast (fs_blocks_count (fs cfg)) \<and> mpc s' = M237 \<or>
       mpc s = M236 \<and> \<not> mblk s < ucast (fs_blocks_count (fs cfg)) \<and> mpc s' = M247 \<or>
       mpc s \<noteq> M236 \<and> mpc s' \<noteq> M236 \<and> minloop (mpc s') = minloop (mpc s)))"
proof -
  let ?s = "the (main_step cfg c s)"
  have "main_step cfg c s \<noteq> None \<longrightarrow>
    ((mpc s = M245 \<and> mpc ?s = M236 \<and> mblk ?s = mblk s + 1 \<and> delta s = 1 \<and> delta ?s = 0) \<or>
     (mpc s \<noteq> M245 \<and> mblk ?s = mblk s \<and> delta ?s = delta s \<and>
      (mpc s = M236 \<and> mblk s < ucast (fs_blocks_count (fs cfg)) \<and> mpc ?s = M237 \<or>
       mpc s = M236 \<and> \<not> mblk s < ucast (fs_blocks_count (fs cfg)) \<and> mpc ?s = M247 \<or>
       mpc s \<noteq> M236 \<and> mpc ?s \<noteq> M236 \<and> minloop (mpc ?s) = minloop (mpc s))))"
    using assms(1)
    by (cases "mpc s") (auto simp: mn_defs delta_def sync_g_def broadcast_enqueued_def)
  with assms(2) show ?thesis by simp
qed

lemma hand_g_main:
  assumes "hand_g cfg s" "sync_g s" "main_step cfg c s = Some s'"
  shows "hand_g cfg s'"
proof -
  have b: "unat (mblk s) < last_block cfg \<Longrightarrow> unat (mblk s + 1) = unat (mblk s) + 1"
    using last_block_bound [of cfg] by (intro unat_succ64) simp
  from main_step_keeps [OF assms(3)] have h: "job_numbers s' = job_numbers s"
    by (simp add: job_numbers_def)
  from main_step_delta [OF assms(2,3)] show ?thesis
  proof (elim disjE conjE)
    assume "mpc s = M245" "mpc s' = M236" "mblk s' = mblk s + 1" "delta s = 1" "delta s' = 0"
    with assms(1) h b show ?thesis by (simp add: hand_g_def)
  next
    assume "mpc s \<noteq> M245" "mblk s' = mblk s" "delta s' = delta s"
      "mpc s = M236" "mblk s < ucast (fs_blocks_count (fs cfg))" "mpc s' = M237"
    with assms(1) h show ?thesis by (simp add: hand_g_def less_blocks_count)
  next
    assume "mpc s \<noteq> M245" "mblk s' = mblk s" "delta s' = delta s"
      "mpc s = M236" "\<not> mblk s < ucast (fs_blocks_count (fs cfg))" "mpc s' = M247"
    with assms(1) h show ?thesis by (simp add: hand_g_def less_blocks_count)
  next
    assume "mpc s \<noteq> M245" "mblk s' = mblk s" "delta s' = delta s"
      "mpc s \<noteq> M236" "mpc s' \<noteq> M236" "minloop (mpc s') = minloop (mpc s)"
    with assms(1) h show ?thesis by (simp add: hand_g_def)
  qed
qed

lemma hand_g_spurious:
  assumes "hand_g cfg s" "spurious cfg x s = Some s'"
  shows "hand_g cfg s'"
proof -
  from spurious_worker [OF assms(2)]
  have "holder_at wtaken (mutex s) (workers s') = holder_at wtaken (mutex s) (workers s)"
    by (intro holder_at_woken) simp_all
  moreover from spurious_mpc [OF assms(2)]
  have p: "mpending (mpc s') = mpending (mpc s)" "(mpc s' = M245) = (mpc s = M245)"
    "minloop (mpc s') = minloop (mpc s)" "(mpc s' = M236) = (mpc s = M236)"
    by auto
  ultimately have "delta s' = delta s"
    using spurious_keeps [OF assms(2)] by (simp add: delta_def)
  moreover from spurious_keeps [OF assms(2)] have "job_numbers s' = job_numbers s"
    "mblk s' = mblk s" by (simp_all add: job_numbers_def)
  ultimately show ?thesis using assms(1) p by (simp add: hand_g_def)
qed

lemma no_break:
  assumes "sync_g s" "sync_w s t"
  shows "wpc (workers s t) = W56 \<Longrightarrow> \<not> quit s"
  using assms by (auto simp: sync_g_def sync_w_def)

lemma job_w_self:
  assumes "job_w s t" "sync_g s" "sync_w s t" "worker_step cfg t c s = Some s'"
  shows "job_w s' t"
proof -
  have "worker_step cfg t c s \<noteq> None \<longrightarrow> job_w (the (worker_step cfg t c s)) t"
    using assms(1) no_break [OF assms(2,3)]
    by (cases "wpc (workers s t)") (auto simp: wk_defs job_w_def)
  with assms(4) show ?thesis by simp
qed

lemma worker_step_other:
  assumes "worker_step cfg t c s = Some s'" "t' \<noteq> t"
  shows "workers s' t' = workers s t'"
proof -
  have "worker_step cfg t c s \<noteq> None \<longrightarrow> workers (the (worker_step cfg t c s)) t' = workers s t'"
    using assms(2) by (cases "wpc (workers s t)") (auto simp: wk_defs)
  with assms(1) show ?thesis by simp
qed

lemma worker_step_job_kept:
  assumes "worker_step cfg t c s = Some s'" "wpc (workers s t) \<noteq> W58"
    "wpc (workers s t) = W56 \<Longrightarrow> \<not> quit s"
  shows "wjob (workers s' t) = wjob (workers s t) \<and>
     (whasjob (wpc (workers s' t)) \<longrightarrow> whasjob (wpc (workers s t)))"
proof -
  let ?s = "the (worker_step cfg t c s)"
  have "worker_step cfg t c s \<noteq> None \<longrightarrow> (wjob (workers ?s t) = wjob (workers s t) \<and>
     (whasjob (wpc (workers ?s t)) \<longrightarrow> whasjob (wpc (workers s t))))"
    using assms(2,3) by (cases "wpc (workers s t)") (auto simp: wk_defs)
  with assms(1) show ?thesis by simp
qed

lemma job_w_other:
  assumes "job_w s t'" "worker_step cfg t c s = Some s'" "t' \<noteq> t"
  shows "job_w s' t'"
  using assms(1) worker_step_other [OF assms(2,3)] worker_step_handoff [OF assms(2)]
  by (auto simp: job_w_def)

lemma jobs_differ_step:
  assumes "jobs_differ s t t'" "job_w s t'" "hand_g cfg s" "sync_g s" "sync_w s t"
    "worker_step cfg t c s = Some s'" "t' \<noteq> t"
  shows "jobs_differ s' t t' \<and> jobs_differ s' t' t"
proof (cases "wpc (workers s t) = W58")
  case False
  from worker_step_job_kept [OF assms(6) False no_break [OF assms(4,5)]]
    worker_step_other [OF assms(6,7)] assms(1)
  show ?thesis by (auto simp: jobs_differ_def)
next
  case True
  with worker_step_handoff [OF assms(6)] have j: "wjob (workers s' t) = job_block_num s"
    by auto
  from True assms(5) have dj: "do_job s" and mine: "mutex s = Some (Worker t)"
    by (simp_all add: sync_w_def)
  with assms(4) have eq: "job_block_num s = mblk s" and pend: "mpending (mpc s)"
    by (simp_all add: sync_g_def)
  from dj pend mine True have "delta s = 0" by (auto simp: delta_def)
  with assms(3) have nums: "job_numbers s = [first_block cfg ..< unat (mblk s)]"
    by (simp add: hand_g_def)
  have "wjob (workers s t') \<noteq> mblk s" if "whasjob (wpc (workers s t'))"
  proof
    assume e: "wjob (workers s t') = mblk s"
    from that assms(2) have "(t', wjob (workers s t')) \<in> set (handoff s)"
      by (simp add: job_w_def)
    then have "unat (wjob (workers s t')) \<in> set (job_numbers s)"
      by (force simp: job_numbers_def)
    with nums e show False by simp
  qed
  with j eq worker_step_other [OF assms(6,7)] show ?thesis
    by (auto simp: jobs_differ_def)
qed

lemma handoff_ids_worker:
  assumes "\<forall>x \<in> set (handoff s). fst x < nworkers cfg" "t < nworkers cfg"
    "worker_step cfg t c s = Some s'"
  shows "\<forall>x \<in> set (handoff s'). fst x < nworkers cfg"
  using assms(1,2) worker_step_handoff [OF assms(3)] by auto

lemma inv_hand_woken:
  assumes "inv_hand cfg s" "hand_g cfg s'" "handoff s' = handoff s"
    "\<And>t. workers s' t = workers s t \<or>
      (wpc (workers s t) = W55 \<and> workers s' t = (workers s t)\<lparr>wpc := W55r\<rparr>)"
  shows "inv_hand cfg s'"
proof -
  have same: "whasjob (wpc (workers s' t)) = whasjob (wpc (workers s t)) \<and>
      wjob (workers s' t) = wjob (workers s t) \<and> blk (workers s' t) = blk (workers s t)" for t
    using assms(4) [of t] by auto
  from assms(1) have "job_w s' t" if "t < nworkers cfg" for t
    using that same [of t] assms(3) by (simp add: inv_hand_def job_w_def)
  moreover from assms(1) have "jobs_differ s' t t'"
    if "t < nworkers cfg" "t' < nworkers cfg" "t \<noteq> t'" for t t'
    using that same [of t] same [of t'] by (simp add: inv_hand_def jobs_differ_def)
  ultimately show ?thesis using assms(1,2,3) by (simp add: inv_hand_def)
qed

lemma inv_hand_step:
  assumes "inv_hand cfg s" "inv_sync cfg s" "step cfg s e = Some s'"
  shows "inv_hand cfg s'"
proof (cases e)
  case (Run x c)
  show ?thesis
  proof (cases x)
    case Main
    with Run assms(3) have m: "main_step cfg c s = Some s'"
      by (simp add: step_def split: if_splits)
    from assms(1,2) have "hand_g cfg s" "sync_g s" by (simp_all add: inv_hand_def inv_sync_def)
    from hand_g_main [OF this m] main_step_keeps [OF m] main_step_worker [OF m] assms(1)
    show ?thesis by (intro inv_hand_woken [of cfg s s']) simp_all
  next
    case (Worker t)
    with Run assms(3) have t: "t < nworkers cfg" and w: "worker_step cfg t c s = Some s'"
      by (simp_all add: step_def split: if_splits)
    from assms(2) t have g: "sync_g s" and st: "sync_w s t" by (simp_all add: inv_sync_def)
    from assms(1) have h: "hand_g cfg s" by (simp add: inv_hand_def)
    have jw: "job_w s' t'" if "t' < nworkers cfg" for t'
    proof (cases "t' = t")
      case True
      from assms(1) t have "job_w s t" by (simp add: inv_hand_def)
      from job_w_self [OF this g st w] True show ?thesis by simp
    next
      case False
      from assms(1) that have "job_w s t'" by (simp add: inv_hand_def)
      from job_w_other [OF this w False] show ?thesis .
    qed
    have jd: "jobs_differ s' a b" if "a < nworkers cfg" "b < nworkers cfg" "a \<noteq> b" for a b
    proof -
      consider "a = t" | "b = t" | "a \<noteq> t" "b \<noteq> t" by blast
      then show ?thesis
      proof cases
        case 1
        from assms(1) that 1 have "jobs_differ s t b" "job_w s b" by (simp_all add: inv_hand_def)
        from jobs_differ_step [OF this h g st w] that 1 show ?thesis by simp
      next
        case 2
        from assms(1) that 2 have "jobs_differ s t a" "job_w s a" by (simp_all add: inv_hand_def)
        from jobs_differ_step [OF this h g st w] that 2 show ?thesis by simp
      next
        case 3
        from assms(1) that have "jobs_differ s a b" by (simp add: inv_hand_def)
        with worker_step_other [OF w 3(1)] worker_step_other [OF w 3(2)] show ?thesis
          by (simp add: jobs_differ_def)
      qed
    qed
    from assms(1) have "\<forall>x \<in> set (handoff s). fst x < nworkers cfg" by (simp add: inv_hand_def)
    from handoff_ids_worker [OF this t w] hand_g_worker [OF h g st w] jw jd
    show ?thesis by (simp add: inv_hand_def)
  qed
next
  case (Spurious x)
  with assms(3) have sp: "spurious cfg x s = Some s'" by (simp add: step_def split: if_splits)
  from assms(1) have "hand_g cfg s" by (simp add: inv_hand_def)
  from hand_g_spurious [OF this sp] spurious_keeps [OF sp] spurious_worker [OF sp] assms(1)
  show ?thesis by (intro inv_hand_woken [of cfg s s']) simp_all
qed

lemma inv_hand_init: "inv_hand cfg (init cfg)"
  by (simp add: inv_hand_def hand_g_def job_w_def jobs_differ_def job_numbers_def delta_def
      first_block_def init_def unat_ucast_32_64)

lemma inv_hand_exec:
  assumes "exec cfg es (init cfg) = Some s" "error_free s"
  shows "inv_sync cfg s \<and> inv_hand cfg s"
  using assms
proof (rule exec_error_free_invariant [where P = "\<lambda>s. inv_sync cfg s \<and> inv_hand cfg s"])
  show "inv_sync cfg (init cfg) \<and> inv_hand cfg (init cfg)"
    by (simp add: inv_sync_init inv_hand_init)
next
  fix s e s'
  assume a: "inv_sync cfg s \<and> inv_hand cfg s" and st: "step cfg s e = Some s'"
    and ef: "error_free s'"
  from a inv_sync_step [OF _ st ef] inv_hand_step [OF _ _ st]
  show "inv_sync cfg s' \<and> inv_hand cfg s'" by simp
qed

section \<open>Lemmas: the history of volume operations\<close>

lemma worker_step_iolog:
  assumes "worker_step cfg t c s = Some s'"
  shows "iolog s' = iolog s \<or>
     (\<exists>ev. whasjob (wpc (workers s t)) \<and>
        (blk (workers s t) = worker_blk (wjob (workers s t)) \<longrightarrow> op_ok (wjob (workers s t)) ev) \<and>
        iolog s' = iolog s @ [(t, wjob (workers s t), ev)])"
proof -
  let ?s = "the (worker_step cfg t c s)"
  let ?w = "workers s t"
  have "worker_step cfg t c s \<noteq> None \<longrightarrow> (iolog ?s = iolog s \<or>
     (\<exists>ev. whasjob (wpc ?w) \<and>
        (blk ?w = worker_blk (wjob ?w) \<longrightarrow> op_ok (wjob ?w) ev) \<and>
        iolog ?s = iolog s @ [(t, wjob ?w, ev)]))"
    by (cases "wpc (workers s t)") (auto simp: wk_defs)
  with assms show ?thesis by simp
qed

lemma log_g_worker:
  assumes "log_g s" "job_w s t" "worker_step cfg t c s = Some s'"
  shows "log_g s'"
proof -
  from worker_step_handoff [OF assms(3)] have mono: "set (handoff s) \<subseteq> set (handoff s')"
    by auto
  from worker_step_iolog [OF assms(3)] show ?thesis
  proof
    assume "iolog s' = iolog s"
    with assms(1) mono show ?thesis by (auto simp: log_g_def)
  next
    assume "\<exists>ev. whasjob (wpc (workers s t)) \<and>
        (blk (workers s t) = worker_blk (wjob (workers s t)) \<longrightarrow> op_ok (wjob (workers s t)) ev) \<and>
        iolog s' = iolog s @ [(t, wjob (workers s t), ev)]"
    then obtain ev where ev: "whasjob (wpc (workers s t))"
      "blk (workers s t) = worker_blk (wjob (workers s t)) \<longrightarrow> op_ok (wjob (workers s t)) ev"
      "iolog s' = iolog s @ [(t, wjob (workers s t), ev)]" by blast
    from ev(1) assms(2) have "blk (workers s t) = worker_blk (wjob (workers s t))"
      "(t, wjob (workers s t)) \<in> set (handoff s)" by (simp_all add: job_w_def)
    with ev(2,3) assms(1) mono show ?thesis by (auto simp: log_g_def)
  qed
qed

text \<open>What a worker does with its own locals needs no lock: these two facts hold in
  every run.\<close>

lemma job_w_own:
  assumes "job_w s t" "worker_step cfg t c s = Some s'"
  shows "job_w s' t"
proof -
  have "worker_step cfg t c s \<noteq> None \<longrightarrow> job_w (the (worker_step cfg t c s)) t"
    using assms(1) by (cases "wpc (workers s t)") (auto simp: wk_defs job_w_def)
  with assms(2) show ?thesis by simp
qed

lemma job_w_woken:
  assumes "job_w s t" "handoff s' = handoff s"
    "workers s' t = workers s t \<or>
      (wpc (workers s t) = W55 \<and> workers s' t = (workers s t)\<lparr>wpc := W55r\<rparr>)"
  shows "job_w s' t"
  using assms by (auto simp: job_w_def)

lemma inv_log_exec:
  assumes "exec cfg es (init cfg) = Some s"
  shows "inv_log cfg s"
  using assms
proof (rule exec_invariant [where P = "inv_log cfg"])
  show "inv_log cfg (init cfg)"
    by (simp add: inv_log_def job_w_def log_g_def init_def)
next
  fix s e s'
  assume a: "inv_log cfg s" and st: "step cfg s e = Some s'"
  show "inv_log cfg s'"
  proof (cases e)
    case (Run x c)
    show ?thesis
    proof (cases x)
      case Main
      with Run st have m: "main_step cfg c s = Some s'" by (simp add: step_def)
      from main_step_keeps [OF m] a have "log_g s'" by (simp add: inv_log_def log_g_def)
      moreover have "job_w s' t" if "t < nworkers cfg" for t
        using a that main_step_keeps [OF m] main_step_worker [OF m, of t]
        by (intro job_w_woken [of s t s']) (simp_all add: inv_log_def)
      ultimately show ?thesis by (simp add: inv_log_def)
    next
      case (Worker t)
      with Run st have t: "t < nworkers cfg" and w: "worker_step cfg t c s = Some s'"
        by (simp_all add: step_def split: if_splits)
      from a t have jt: "job_w s t" and l: "log_g s" by (simp_all add: inv_log_def)
      have "job_w s' t'" if "t' < nworkers cfg" for t'
      proof (cases "t' = t")
        case True
        with job_w_own [OF jt w] show ?thesis by simp
      next
        case False
        from a that have "job_w s t'" by (simp add: inv_log_def)
        from job_w_other [OF this w False] show ?thesis .
      qed
      with log_g_worker [OF l jt w] show ?thesis by (simp add: inv_log_def)
    qed
  next
    case (Spurious x)
    with st have sp: "spurious cfg x s = Some s'" by (simp add: step_def)
    from spurious_keeps [OF sp] a have "log_g s'" by (simp add: inv_log_def log_g_def)
    moreover have "job_w s' t" if "t < nworkers cfg" for t
      using a that spurious_keeps [OF sp] spurious_worker [OF sp, of t]
      by (intro job_w_woken [of s t s']) (simp_all add: inv_log_def)
    ultimately show ?thesis by (simp add: inv_log_def)
  qed
qed

section \<open>Lemmas: dry-run mode\<close>

lemma inv_dry_worker:
  assumes "inv_dry cfg s" "dryrun cfg" "worker_step cfg t c s = Some s'"
  shows "inv_dry cfg s'"
proof -
  let ?s = "the (worker_step cfg t c s)"
  from assms(1) have pc: "wpc (workers s t) \<noteq> W103" by (simp add: inv_dry_def)
  have "worker_step cfg t c s \<noteq> None \<longrightarrow>
     wpc (workers ?s t) \<noteq> W103 \<and> no_write ?s = no_write s \<and> device ?s = device s"
    using pc assms(2) by (cases "wpc (workers s t)") (auto simp: wk_defs no_write_def)
  with assms(3) have self: "wpc (workers s' t) \<noteq> W103" "no_write s' = no_write s"
    "device s' = device s" by simp_all
  have "wpc (workers s' t') \<noteq> W103" for t'
  proof (cases "t' = t")
    case True
    with self(1) show ?thesis by simp
  next
    case False
    from worker_step_other [OF assms(3) False] assms(1) show ?thesis by (simp add: inv_dry_def)
  qed
  with self(2,3) assms(1) show ?thesis by (simp add: inv_dry_def)
qed

lemma inv_dry_woken:
  assumes "inv_dry cfg s" "iolog s' = iolog s" "device s' = device s"
    "\<And>t. workers s' t = workers s t \<or>
      (wpc (workers s t) = W55 \<and> workers s' t = (workers s t)\<lparr>wpc := W55r\<rparr>)"
  shows "inv_dry cfg s'"
proof -
  have "wpc (workers s' t) \<noteq> W103" for t
    using assms(4) [of t] assms(1) by (auto simp: inv_dry_def)
  with assms(1,2,3) show ?thesis by (simp add: inv_dry_def no_write_def)
qed

lemma inv_dry_exec:
  assumes "exec cfg es (init cfg) = Some s" "dryrun cfg"
  shows "inv_dry cfg s"
  using assms(1)
proof (rule exec_invariant [where P = "inv_dry cfg"])
  show "inv_dry cfg (init cfg)" by (simp add: inv_dry_def no_write_def init_def)
next
  fix s e s'
  assume a: "inv_dry cfg s" and st: "step cfg s e = Some s'"
  show "inv_dry cfg s'"
  proof (cases e)
    case (Run x c)
    show ?thesis
    proof (cases x)
      case Main
      with Run st have m: "main_step cfg c s = Some s'" by (simp add: step_def)
      from main_step_keeps [OF m] main_step_worker [OF m] a show ?thesis
        by (intro inv_dry_woken [of cfg s s']) simp_all
    next
      case (Worker t)
      with Run st have "worker_step cfg t c s = Some s'"
        by (simp add: step_def split: if_splits)
      with a assms(2) show ?thesis by (rule inv_dry_worker)
    qed
  next
    case (Spurious x)
    with st have sp: "spurious cfg x s = Some s'" by (simp add: step_def)
    from spurious_keeps [OF sp] spurious_worker [OF sp] a show ?thesis
      by (intro inv_dry_woken [of cfg s s']) simp_all
  qed
qed

section \<open>Lemmas: the counters\<close>

lemma uint_succ32: "uint (x :: 32 word) < 4294967295 \<Longrightarrow> uint (x + 1) = uint x + 1"
  using uint_add_lem [of x 1] by simp

lemma pre70_bounds: "0 \<le> pre70 w" "pre70 w \<le> 1"
  by (simp_all add: pre70_def)

lemma ahead_bounds: "0 \<le> ahead w" "ahead w \<le> 1"
  by (simp_all add: ahead_def)

lemma handoff_length:
  assumes "hand_g cfg s"
  shows "length (handoff s) \<le> last_block cfg - first_block cfg"
proof -
  from assms have "length (job_numbers s) = unat (mblk s) + delta s - first_block cfg"
    by (simp add: hand_g_def)
  moreover have "length (job_numbers s) = length (handoff s)" by (simp add: job_numbers_def)
  moreover have "unat (mblk s) + delta s \<le> max (first_block cfg) (last_block cfg)"
  proof (cases "minloop (mpc s)")
    case True
    with assms show ?thesis by (simp add: hand_g_def delta_def)
  next
    case False
    then have "delta s = 0" by (cases "mpc s") (simp_all add: delta_def)
    with assms show ?thesis by (simp add: hand_g_def)
  qed
  ultimately show ?thesis by (simp add: max_def split: if_splits)
qed

lemma handoff_short:
  assumes "hand_g cfg s"
  shows "length (handoff s) < 4294967296"
  using handoff_length [OF assms] last_block_bound [of cfg] by simp

text \<open>Line 70 does not wrap: a worker that is about to count its block has taken a job
  that is not counted yet.\<close>

lemma free_room:
  assumes "inv_free cfg s" "length (handoff s) < 4294967296" "t < nworkers cfg"
    "wpre70 (wpc (workers s t))"
  shows "uint (freeBlocks s) < 4294967295"
proof -
  have "pre70 (workers s t) \<le> wsumf pre70 (nworkers cfg) (workers s)"
    by (rule wsumf_member) (rule pre70_bounds, rule assms(3))
  with assms(1,2,4) show ?thesis by (simp add: inv_free_def pre70_def)
qed

lemma mod_room:
  assumes "inv_mod cfg s" "t < nworkers cfg" "wahead (wpc (workers s t))"
  shows "uint (modifiedBlocks s) < uint (freeBlocks s)"
proof -
  have "ahead (workers s t) \<le> wsumf ahead (nworkers cfg) (workers s)"
    by (rule wsumf_member) (rule ahead_bounds, rule assms(2))
  with assms(1,3) show ?thesis by (simp add: inv_mod_def ahead_def)
qed

lemma inv_free_worker:
  assumes "inv_free cfg s" "length (handoff s) < 4294967296" "t < nworkers cfg"
    "worker_step cfg t c s = Some s'"
  shows "inv_free cfg s'"
proof -
  note room = free_room [OF assms(1,2,3)]
  have eq: "uint (freeBlocks s) + wsumf pre70 (nworkers cfg) (workers s)
       \<le> int (length (handoff s))"
    using assms(1) by (simp add: inv_free_def)
  have "worker_step cfg t c s \<noteq> None \<longrightarrow> inv_free cfg (the (worker_step cfg t c s))"
    using assms(3) eq room
    by (cases "wpc (workers s t)")
       (auto simp: wk_defs inv_free_def wsumf_upd pre70_def uint_succ32)
  with assms(4) show ?thesis by simp
qed

lemma inv_mod_worker:
  assumes "inv_mod cfg s" "uint (freeBlocks s) < 4294967295 \<or> \<not> wpre70 (wpc (workers s t))"
    "t < nworkers cfg" "worker_step cfg t c s = Some s'"
  shows "inv_mod cfg s'"
proof -
  have room: "wahead (wpc (workers s t)) \<Longrightarrow> uint (modifiedBlocks s) < 4294967295"
    using mod_room [OF assms(1,3)] unsigned_less [of "freeBlocks s", where 'a = int]
    by simp
  have eq: "uint (modifiedBlocks s) + wsumf ahead (nworkers cfg) (workers s)
       \<le> uint (freeBlocks s)"
    using assms(1) by (simp add: inv_mod_def)
  have "worker_step cfg t c s \<noteq> None \<longrightarrow> inv_mod cfg (the (worker_step cfg t c s))"
    using assms(2,3) eq room
    by (cases "wpc (workers s t)")
       (auto simp: wk_defs inv_mod_def wsumf_upd ahead_def uint_succ32)
  with assms(4) show ?thesis by simp
qed

lemma inv_pct_worker:
  assumes "inv_pct cfg s" "sync_w s t" "wahead (wpc (workers s t)) \<longrightarrow> freeBlocks s \<noteq> 0"
    "wpre70 (wpc (workers s t)) \<longrightarrow> freeBlocks s + 1 \<noteq> 0"
    "worker_step cfg t c s = Some s'"
  shows "inv_pct cfg s'"
proof -
  have "worker_step cfg t c s \<noteq> None \<longrightarrow> inv_pct cfg (the (worker_step cfg t c s))"
    using assms(1-4)
    by (cases "wpc (workers s t)")
       (auto simp: wk_defs inv_pct_def sync_w_def pct_of_def holder_at_def
          split: option.splits thr.splits)
  with assms(5) show ?thesis by simp
qed

lemma counters_woken:
  assumes "inv_free cfg s" "inv_mod cfg s" "inv_pct cfg s"
    "freeBlocks s' = freeBlocks s" "modifiedBlocks s' = modifiedBlocks s"
    "percent s' = percent s" "handoff s' = handoff s"
    "mutex s' = mutex s \<or> \<not> holder_at wat71 (mutex s) (workers s)"
    "\<And>t. workers s' t = workers s t \<or>
      (wpc (workers s t) = W55 \<and> workers s' t = (workers s t)\<lparr>wpc := W55r\<rparr>)"
  shows "inv_free cfg s' \<and> inv_mod cfg s' \<and> inv_pct cfg s'"
proof -
  have "wsumf pre70 (nworkers cfg) (workers s') = wsumf pre70 (nworkers cfg) (workers s)"
  proof (rule wsumf_cong)
    fix t
    from assms(9) [of t] show "pre70 (workers s' t) = pre70 (workers s t)"
      by (auto simp: pre70_def)
  qed
  moreover
  have "wsumf ahead (nworkers cfg) (workers s') = wsumf ahead (nworkers cfg) (workers s)"
  proof (rule wsumf_cong)
    fix t
    from assms(9) [of t] show "ahead (workers s' t) = ahead (workers s t)"
      by (auto simp: ahead_def)
  qed
  moreover
  have "holder_at wat71 h (workers s') = holder_at wat71 h (workers s)" for h
    by (rule holder_at_woken) (rule assms(9), simp_all)
  ultimately show ?thesis
    using assms(1-8) by (auto simp: inv_free_def inv_mod_def inv_pct_def)
qed

lemma inv_counters_step:
  assumes "inv_counters cfg s" "step cfg s e = Some s'" "error_free s'"
  shows "inv_counters cfg s'"
proof -
  from assms(1) have i: "inv_sync cfg s" "inv_hand cfg s" "inv_free cfg s" "inv_mod cfg s"
    "inv_pct cfg s" by (simp_all add: inv_counters_def)
  from i(2) have hg: "hand_g cfg s" by (simp add: inv_hand_def)
  note short = handoff_short [OF hg]
  have "inv_free cfg s' \<and> inv_mod cfg s' \<and> inv_pct cfg s'"
  proof (cases e)
    case (Run x c)
    show ?thesis
    proof (cases x)
      case Main
      with Run assms(2) have m: "main_step cfg c s = Some s'" by (simp add: step_def)
      from i(1) have g: "sync_g s" by (simp add: inv_sync_def)
      from main_step_frame [OF m g]
      have "mutex s' = mutex s \<or> \<not> holder_at wat71 (mutex s) (workers s)" by auto
      with main_step_keeps [OF m] main_step_worker [OF m] i(3,4,5) show ?thesis
        by (intro counters_woken [of cfg s s']) simp_all
    next
      case (Worker t)
      with Run assms(2) have t: "t < nworkers cfg" and w: "worker_step cfg t c s = Some s'"
        by (simp_all add: step_def split: if_splits)
      from i(1) t have st: "sync_w s t" by (simp add: inv_sync_def)
      have r1: "wpre70 (wpc (workers s t)) \<longrightarrow> uint (freeBlocks s) < 4294967295"
        using free_room [OF i(3) short t] by simp
      have r2: "wahead (wpc (workers s t)) \<longrightarrow> uint (modifiedBlocks s) < uint (freeBlocks s)"
        using mod_room [OF i(4) t] by simp
      from r2 have nz: "wahead (wpc (workers s t)) \<longrightarrow> freeBlocks s \<noteq> 0" by auto
      have nz': "wpre70 (wpc (workers s t)) \<longrightarrow> freeBlocks s + 1 \<noteq> 0"
      proof
        assume "wpre70 (wpc (workers s t))"
        with r1 have "uint (freeBlocks s + 1) = uint (freeBlocks s) + 1"
          by (simp add: uint_succ32)
        moreover have "0 \<le> uint (freeBlocks s)" by simp
        ultimately have "uint (freeBlocks s + 1) \<noteq> 0" by arith
        then show "freeBlocks s + 1 \<noteq> 0" by auto
      qed
      from r1 have "uint (freeBlocks s) < 4294967295 \<or> \<not> wpre70 (wpc (workers s t))" by auto
      from inv_free_worker [OF i(3) short t w] inv_mod_worker [OF i(4) this t w]
        inv_pct_worker [OF i(5) st nz nz' w]
      show ?thesis by simp
    qed
  next
    case (Spurious x)
    with assms(2) have sp: "spurious cfg x s = Some s'" by (simp add: step_def)
    from spurious_keeps [OF sp] spurious_worker [OF sp] i(3,4,5) show ?thesis
      by (intro counters_woken [of cfg s s']) simp_all
  qed
  with inv_sync_step [OF i(1) assms(2,3)] inv_hand_step [OF i(2,1) assms(2)]
  show ?thesis by (simp add: inv_counters_def)
qed

lemma inv_counters_exec:
  assumes "exec cfg es (init cfg) = Some s" "error_free s"
  shows "inv_counters cfg s"
  using assms
proof (rule exec_error_free_invariant [where P = "inv_counters cfg"])
  show "inv_counters cfg (init cfg)"
    by (simp add: inv_counters_def inv_sync_init inv_hand_init)
       (simp add: inv_free_def inv_mod_def inv_pct_def init_def wsumf_def pre70_def ahead_def
          pct_of_def)
qed (rule inv_counters_step)

text \<open>No step lowers a counter.\<close>

lemma worker_step_counters:
  assumes "worker_step cfg t c s = Some s'"
    "wpre70 (wpc (workers s t)) \<longrightarrow> uint (freeBlocks s) < 4294967295"
    "wahead (wpc (workers s t)) \<longrightarrow> uint (modifiedBlocks s) < 4294967295"
  shows "uint (freeBlocks s) \<le> uint (freeBlocks s') \<and>
     uint (modifiedBlocks s) \<le> uint (modifiedBlocks s')"
proof -
  let ?s = "the (worker_step cfg t c s)"
  have "worker_step cfg t c s \<noteq> None \<longrightarrow>
     (uint (freeBlocks s) \<le> uint (freeBlocks ?s) \<and>
      uint (modifiedBlocks s) \<le> uint (modifiedBlocks ?s))"
    using assms(2,3) by (cases "wpc (workers s t)") (auto simp: wk_defs uint_succ32)
  with assms(1) show ?thesis by simp
qed

section \<open>Claims about start-up\<close>

text \<open>
  Claim C8 (a fill value outside 0--255 and a worker count outside 1--1048576 are
  rejected with a message and a non-zero exit before the sweep starts) fails on the
  code. Line 144 stores the \<open>long\<close> result of \<open>strtol\<close> in the \<open>unsigned int fillval\<close>
  before line 148 compares it with 255, so only the low 32 bits are checked: for the
  command line \<open>-f 4294967296 image\<close> \<open>strtol\<close> returns \<open>2^32\<close>, \<open>fillval\<close> becomes 0, no
  message is printed and the sweep is started with fill value 0.
\<close>

theorem wide_fill_value_starts_sweep:
  "main_startup env_wide_fill =
     Start_sweep \<lparr>max_threads = 1, dryrun = False, verbose = False, fillval = 0, fs = tiny_fs\<rparr>
       all_calls"
  by (simp add: main_startup_def env_wide_fill_def env_with_def initial_settings_def
      nworkers_def all_calls_def Let_def)

text \<open>The same happens at line 157 for the thread count: \<open>-t 4294967297\<close> is stored as 1.\<close>

lemma wide_thread_count_starts_sweep:
  "main_startup env_wide_threads =
     Start_sweep \<lparr>max_threads = 1, dryrun = False, verbose = False, fillval = 0, fs = tiny_fs\<rparr>
       all_calls"
  by (simp add: main_startup_def env_wide_threads_def env_with_def initial_settings_def
      nworkers_def all_calls_def Let_def)

text \<open>
  Claim C9: for every configuration that gets as far as opening the volume (the options
  parse, there is one positional argument, the mount check succeeds and does not find
  the volume mounted read-write), dry-run or not, \<open>main\<close> calls \<open>ext2fs_open\<close> exactly
  once, and with \<open>EXT2_FLAG_RW\<close>: \<open>open_flags\<close> is set at line 126 and no option changes
  it. What \<open>-n\<close> suppresses is line 103: in every state of a dry-run sweep no worker has
  called \<open>io_channel_write_blk\<close> and the content of the device is that of the start.
\<close>

theorem open_flags_always_rw:
  assumes "parse_opts (env_opts env) initial_settings = Inr st" "env_positional env = 1"
    "\<not> env_mount_check_fails env" "\<not> (env_mounted env \<and> \<not> env_readonly env)"
  shows "filter is_open (calls_of (main_startup env)) = [Call_open (env_flag_rw env)] \<and>
     (\<forall>cfg cs es s. main_startup env = Start_sweep cfg cs \<and> dryrun cfg \<and>
        exec cfg es (init cfg) = Some s \<longrightarrow> no_write s \<and> device s = fs_volume (fs cfg))"
proof -
  from assms have "filter is_open (calls_of (main_startup env)) = [Call_open (env_flag_rw env)]"
    by (simp add: main_startup_def Let_def)
  moreover have "no_write s \<and> device s = fs_volume (fs cfg)"
    if "dryrun cfg" "exec cfg es (init cfg) = Some s" for cfg es s
    using inv_dry_exec [OF that(2,1)] by (simp add: inv_dry_def)
  ultimately show ?thesis by blast
qed

text \<open>The command line \<open>-n image\<close>: the volume is opened with the read-write flag, and
  the dry-run sweep of the one block reads it and writes nothing.\<close>

theorem open_flags_always_rw_witness:
  "parse_opts (env_opts env_dry) initial_settings = Inr (initial_settings\<lparr>set_dryrun := True\<rparr>) \<and>
   env_positional env_dry = 1 \<and> \<not> env_mount_check_fails env_dry \<and>
   \<not> (env_mounted env_dry \<and> \<not> env_readonly env_dry) \<and>
   main_startup env_dry = Start_sweep dry_cfg all_calls \<and> dryrun dry_cfg \<and>
   filter is_open (calls_of (main_startup env_dry)) = [Call_open 1] \<and>
   map_option history (exec dry_cfg dry_run (init dry_cfg)) =
     Some ([(0, 0)], [(0, 0, Test 0), (0, 0, Read 0)]) \<and>
   map_option counters (exec dry_cfg dry_run (init dry_cfg)) = Some (1, 1, 0) \<and>
   map_option (blocks_view dry_cfg 1) (exec dry_cfg dry_run (init dry_cfg)) = Some [[7, 7]]"
proof -
  have p: "parse_opts (env_opts env_dry) initial_settings = Inr (initial_settings\<lparr>set_dryrun := True\<rparr>)"
    and e: "env_positional env_dry = 1" "\<not> env_mount_check_fails env_dry"
      "\<not> (env_mounted env_dry \<and> \<not> env_readonly env_dry)" "env_flag_rw env_dry = 1"
    by (simp_all add: env_dry_def env_with_def)
  have st: "main_startup env_dry = Start_sweep dry_cfg all_calls"
    by (simp add: main_startup_def env_dry_def env_with_def initial_settings_def nworkers_def
        all_calls_def dry_cfg_def tiny_cfg_def Let_def)
  have d: "dryrun dry_cfg" by (simp add: dry_cfg_def)
  obtain s where s: "exec dry_cfg dry_run (init dry_cfg) = Some s"
    and v: "history s = ([(0, 0)], [(0, 0, Test 0), (0, 0, Read 0)])" "counters s = (1, 1, 0)"
      "blocks_view dry_cfg 1 s = [[7, 7]]"
    by (simp add: dry_cfg_def tiny_cfg_def tiny_fs_def dry_run_def run_defs view_defs)
  from open_flags_always_rw [OF p e(1,2,3)] st d s v p e show ?thesis by simp
qed

section \<open>Claims about the handshake\<close>

text \<open>
  As long as no worker has reported an I/O error, no worker returns from
  \<open>worker_thread\<close> and \<open>main\<close> does not get past the first \<open>pthread_join\<close> of line 254:
  \<open>quit\<close> is only set when \<open>do_job\<close> is 0, \<open>do_job\<close> is never set again, and the inner
  loop of line 54 is left only when \<open>do_job\<close> is set, so line 56 never sees \<open>quit\<close>.
\<close>

lemma never_joined:
  assumes "exec cfg es (init cfg) = Some s" "error_free s" "0 < nworkers cfg"
  shows "\<not> mjoined (mpc s) \<and> (\<forall>t < nworkers cfg. \<not> wleaving (wpc (workers s t)))
     \<and> (quit s \<longrightarrow> \<not> do_job s)"
  using inv_basic_exec [OF assms(1,2)] assms(3)
  by (simp add: inv_basic_def inv_join_def inv_sync_def sync_w_def sync_g_def)

text \<open>A worker that rechecks line 54 after the broadcast of line 249 waits again.\<close>

lemma woken_worker_waits_again:
  assumes "exec cfg es (init cfg) = Some s" "error_free s" "quit s" "t < nworkers cfg"
    "wpc (workers s t) = W54"
  shows "\<exists>s'. step cfg s (Run (Worker t) c) = Some s' \<and> wpc (workers s' t) = W55"
proof -
  from inv_basic_exec [OF assms(1,2)] have "sync_g s" by (simp add: inv_basic_def inv_sync_def)
  with assms(3) have "\<not> do_job s" by (simp add: sync_g_def)
  then show ?thesis
    using assms(4,5) by (simp add: step_def worker_step_def unlock_then_def goto_def)
qed

text \<open>
  Claim C1 (after the dispatch loop \<open>main\<close> sets the terminate flag and broadcasts,
  every blocked worker observes the flag and leaves its loop, and the joins complete)
  fails on the code. With one worker and an empty block range the worker waits at line
  55; \<open>main\<close> sets \<open>quit\<close>, broadcasts and blocks in \<open>pthread_join\<close>; the woken worker
  takes the mutex, finds \<open>do_job\<close> still 0 at line 54 and waits again. In the state
  reached \<open>quit\<close> is set, the worker is blocked at line 55, \<open>main\<close> is blocked at line 254,
  and no thread can take a step.
\<close>

theorem quit_broadcast_leaves_worker_waiting:
  "map_option (final_view empty_cfg) (exec empty_cfg empty_run (init empty_cfg)) =
     Some ((M251 0, True, False, None), [W55], True)"
  by (simp add: empty_cfg_def tiny_cfg_def tiny_fs_def empty_run_def run_defs view_defs)

text \<open>
  Claim C2 (a read or write error of a worker aborts the whole sweep: no further block
  is processed and the process exits with a non-zero status) fails on the code. The
  worker prints its message and returns (lines 84--85, 115--118); nothing tells \<open>main\<close>,
  and the value \<open>main\<close> returns depends on \<open>ext2fs_close\<close> only (lines 261--267).

  With two workers and three free blocks, of which blocks 0 and 2 cannot be read:
  worker 0 fails on block 0 and returns; after that report worker 1 is handed block 1,
  reads it and rewrites it, is handed block 2, fails and returns; \<open>main\<close> joins both and
  returns 0. Each of the two workers finds the mutex free when it unlocks it at line 117
  (the states after 26 and after 96 events).

  With one worker and two blocks, of which block 0 cannot be read: the worker returns,
  \<open>main\<close> publishes block 1 and waits at line 244 for a worker to accept it; no thread can
  take a step, and the process does not exit at all.
\<close>

theorem io_error_neither_stops_sweep_nor_fails_exit:
  "map_option (final_view abort_cfg) (exec abort_cfg abort_run (init abort_cfg)) =
     Some ((M_returned 0, True, False, None), [W_returned, W_returned], True) \<and>
   map_option history (exec abort_cfg abort_run (init abort_cfg)) =
     Some ([(0, 0), (1, 1), (1, 2)],
           [(0, 0, Test 0), (0, 0, Read_failed 0), (1, 1, Test 1), (1, 1, Read 1),
            (1, 1, Write 1), (1, 2, Test 2), (1, 2, Read_failed 2)]) \<and>
   map_option (blocks_view abort_cfg 3) (exec abort_cfg abort_run (init abort_cfg)) =
     Some [[7, 7], [0, 0], [7, 7]] \<and>
   map_option (final_view abort_cfg) (exec abort_cfg (take 26 abort_run) (init abort_cfg)) =
     Some ((M244r, False, False, None), [W117, W50], False) \<and>
   map_option (final_view abort_cfg) (exec abort_cfg (take 96 abort_run) (init abort_cfg)) =
     Some ((M251 1, True, False, None), [W_returned, W117], False) \<and>
   map_option (final_view solo_cfg) (exec solo_cfg solo_run (init solo_cfg)) =
     Some ((M244, False, True, None), [W_returned], True) \<and>
   map_option history (exec solo_cfg solo_run (init solo_cfg)) =
     Some ([(0, 0)], [(0, 0, Test 0), (0, 0, Read_failed 0)])"
  by (simp add: abort_cfg_def solo_cfg_def pair_cfg_def tiny_fs_def abort_run_def
      solo_run_def run_defs view_defs)

text \<open>
  In the runs without an error report claim C3 holds. In every state such a sweep
  reaches, the block numbers taken by workers at line 58 are, in the order taken, the
  numbers from \<open>s_first_data_block\<close> up to the block \<open>main\<close> is dispatching (that one
  included once a worker has taken it); once \<open>main\<close> has left the loop of line 236 they
  are exactly the numbers from \<open>s_first_data_block\<close> up to \<open>s_blocks_count - 1\<close>. No block
  number is taken twice, each is taken by an existing worker, two workers never own the
  same block, a worker that owns a block took it, and \<open>main\<close> stands before lines 240
  and 241, which overwrite the job slot, only when no job is pending. Every query of the
  bitmap is for a block taken.
\<close>

lemma every_block_handed_over_once:
  assumes "exec cfg es (init cfg) = Some s" "error_free s"
  shows "job_numbers s = [first_block cfg ..< unat (mblk s) + delta s] \<and>
     (\<not> minloop (mpc s) \<and> mpc s \<noteq> M236 \<longrightarrow>
        job_numbers s = [first_block cfg ..< last_block cfg]) \<and>
     distinct (map snd (handoff s)) \<and>
     (\<forall>x \<in> set (handoff s). fst x < nworkers cfg) \<and>
     (\<forall>t < nworkers cfg. \<forall>t' < nworkers cfg.
        t \<noteq> t' \<and> whasjob (wpc (workers s t)) \<and> whasjob (wpc (workers s t')) \<longrightarrow>
        wjob (workers s t) \<noteq> wjob (workers s t')) \<and>
     (\<forall>t < nworkers cfg. whasjob (wpc (workers s t)) \<longrightarrow>
        (t, wjob (workers s t)) \<in> set (handoff s)) \<and>
     (mpc s = M240 \<or> mpc s = M241 \<longrightarrow> \<not> do_job s) \<and>
     (\<forall>x \<in> set (iolog s). (fst x, fst (snd x)) \<in> set (handoff s))"
proof -
  from inv_hand_exec [OF assms] have g: "sync_g s" and h: "inv_hand cfg s"
    by (simp_all add: inv_sync_def)
  from inv_log_exec [OF assms(1)] have l: "log_g s" by (simp add: inv_log_def)
  from h have hg: "hand_g cfg s" by (simp add: inv_hand_def)
  then have nums: "job_numbers s = [first_block cfg ..< unat (mblk s) + delta s]"
    by (simp add: hand_g_def)
  have after: "job_numbers s = [first_block cfg ..< last_block cfg]"
    if "\<not> minloop (mpc s)" "mpc s \<noteq> M236"
  proof -
    from that have "delta s = 0" by (cases "mpc s") (simp_all add: delta_def)
    moreover from hg that have "last_block cfg \<le> unat (mblk s)"
      "unat (mblk s) \<le> max (first_block cfg) (last_block cfg)" "first_block cfg \<le> unat (mblk s)"
      by (simp_all add: hand_g_def)
    ultimately show ?thesis using nums by (cases "first_block cfg \<le> last_block cfg") auto
  qed
  have "distinct (map unat (map snd (handoff s)))"
  proof -
    have "map unat (map snd (handoff s)) = job_numbers s"
      by (simp add: job_numbers_def case_prod_unfold comp_def)
    with nums show ?thesis by simp
  qed
  then have d: "distinct (map snd (handoff s))"
    using distinct_map [of unat "map snd (handoff s)"] by blast
  from g have "mpc s = M240 \<or> mpc s = M241 \<longrightarrow> \<not> do_job s" by (auto simp: sync_g_def)
  with nums after d h l show ?thesis
    by (simp add: inv_hand_def job_w_def jobs_differ_def log_g_def)
qed

text \<open>
  Claim C3 (for every sweep each block number is claimed by exactly one worker exactly
  once) fails on the code once a worker has met an I/O error. The error exit of lines
  85 and 106 jumps to line 117 and unlocks the mutex, which the worker gave up at line
  73 or 100; when another worker holds the mutex at that moment, between copying the job
  (line 58) and clearing \<open>do_job\<close> (line 60), the mutex becomes free and a third worker
  enters, finds \<open>do_job\<close> still 1 and copies the same job.

  With three workers and two free blocks, of which block 0 cannot be read: worker 0
  fails on block 0 and stands before line 117; \<open>main\<close> publishes block 1; worker 1 takes
  the mutex and copies the job (the state after 40 events); worker 0 unlocks (the state
  after 41 events); worker 2 takes the mutex and copies the job too. Block 1 is taken by
  workers 1 and 2, tested and read by both, and counted twice in \<open>freeBlocks\<close>, which
  ends at 3 for a volume of 2 blocks.
\<close>

theorem error_exit_hands_block_to_two_workers:
  "map_option history (exec trio_cfg twice_run (init trio_cfg)) =
     Some ([(0, 0), (1, 1), (2, 1)],
           [(0, 0, Test 0), (0, 0, Read_failed 0), (1, 1, Test 1), (1, 1, Read 1),
            (1, 1, Write 1), (2, 1, Test 1), (2, 1, Read 1)]) \<and>
   map_option counters (exec trio_cfg twice_run (init trio_cfg)) = Some (3, 1, 0) \<and>
   map_option (final_view trio_cfg) (exec trio_cfg (take 40 twice_run) (init trio_cfg)) =
     Some ((M244, False, True, Some (Worker 1)), [W117, W59, W50], False) \<and>
   map_option (final_view trio_cfg) (exec trio_cfg (take 41 twice_run) (init trio_cfg)) =
     Some ((M244, False, True, None), [W_returned, W59, W50], False) \<and>
   map_option (final_view trio_cfg) (exec trio_cfg (take 45 twice_run) (init trio_cfg)) =
     Some ((M244, False, True, Some (Worker 2)), [W_returned, W59, W59], False)"
  by (simp add: trio_cfg_def pair_cfg_def tiny_fs_def twice_run_def run_defs view_defs)

text \<open>
  In the runs without an error report claim C4 holds: \<open>runningThreads\<close> lies between 0
  and \<open>max_threads\<close>; it equals the number of workers that have executed the increment
  of line 59 and not yet the decrement of line 111; and while \<open>main\<close> publishes a job it
  has passed the test of line 238, so \<open>runningThreads < max_threads\<close>. The configuration
  is any one \<open>main\<close> starts the sweep with. The count is a 32-bit \<open>int\<close>: the equation
  shows it never overflows.
\<close>

lemma running_threads_bounded:
  assumes "main_startup env = Start_sweep cfg cs" "exec cfg es (init cfg) = Some s"
    "error_free s"
  shows "0 \<le> sint (runningThreads s) \<and> sint (runningThreads s) \<le> sint (max_threads cfg) \<and>
     sint (runningThreads s) = int (card {t. t < nworkers cfg \<and> wactive (wpc (workers s t))}) \<and>
     (madmitted (mpc s) \<longrightarrow> sint (runningThreads s) < sint (max_threads cfg))"
proof -
  from startup_config_valid [OF assms(1)] have n: "int (nworkers cfg) = sint (max_threads cfg)"
    by (simp add: nworkers_def)
  from inv_basic_exec [OF assms(2,3)]
  have c: "sint (runningThreads s) = wsumf active (nworkers cfg) (workers s)"
    and a: "inv_admit cfg s"
    by (simp_all add: inv_basic_def inv_count_def)
  have "0 \<le> wsumf active (nworkers cfg) (workers s)"
    by (rule wsumf_nonneg) (rule active_bounds)
  moreover have "wsumf active (nworkers cfg) (workers s) \<le> int (nworkers cfg)"
    by (rule wsumf_le) (rule active_bounds)
  ultimately show ?thesis
    using c n a by (simp add: wsumf_active_card inv_admit_def)
qed

text \<open>
  Claim C4 (in every reachable state, the error path of a worker included,
  \<open>0 \<le> runningThreads \<le> max_threads\<close>, with one decrement for each increment) fails on
  the code on the error path. Line 110 takes the mutex before the decrement of line
  111; the error exit of lines 85 and 106 jumps to line 116 and decrements without it,
  so an increment made by another worker between the read and the write of line 116 is
  lost.

  With two workers and two free blocks, of which block 0 cannot be read: worker 0 fails
  on block 0 and reads \<open>runningThreads = 1\<close> at line 116 (the state after 35 events);
  worker 1 accepts block 1 and line 59 makes the count 2 (after 43 events); worker 0
  writes 0 and returns (after 45 events); worker 1 finishes its block and line 111 makes
  the count \<open>-1\<close>, which it keeps. The last component of \<open>counters\<close> is
  \<open>runningThreads\<close>.
\<close>

theorem error_exit_makes_running_threads_negative:
  "map_option counters (exec pair_cfg lost_run (init pair_cfg)) = Some (2, 1, - 1) \<and>
   map_option (final_view pair_cfg) (exec pair_cfg lost_run (init pair_cfg)) =
     Some ((M251 1, True, False, None), [W_returned, W55], True) \<and>
   map_option (\<lambda>s. (worker_pcs pair_cfg s, counters s))
       (exec pair_cfg (take 35 lost_run) (init pair_cfg)) = Some ([W116s, W50], (1, 0, 1)) \<and>
   map_option (\<lambda>s. (worker_pcs pair_cfg s, counters s))
       (exec pair_cfg (take 43 lost_run) (init pair_cfg)) = Some ([W116s, W65], (1, 0, 2)) \<and>
   map_option (\<lambda>s. (worker_pcs pair_cfg s, counters s))
       (exec pair_cfg (take 45 lost_run) (init pair_cfg)) = Some ([W_returned, W65], (1, 0, 0))"
  by (simp add: pair_cfg_def tiny_fs_def lost_run_def run_defs view_defs)

section \<open>Claims about the volume operations\<close>



section \<open>Claims about the counters\<close>

text \<open>
  Claim C6 says that \<open>freeBlocks\<close> never exceeds the volume's expected free-block count.
  The code compares \<open>freeBlocks\<close> with nothing: the superblock's \<open>s_free_blocks_count\<close> is
  only the divisor of line 72. On a volume whose superblock counts 0 free blocks while
  the bitmap has block 0 free the sweep ends with \<open>freeBlocks = 1\<close>, and \<open>percent\<close> is the
  quotient of 1 by 0.
\<close>

theorem free_blocks_exceed_superblock_count:
  "map_option counters (exec stale_cfg tiny_run (init stale_cfg)) = Some (1, 1, 0) \<and>
   map_option percent (exec stale_cfg tiny_run (init stale_cfg)) = Some (Pct_quot 1 0) \<and>
   unat (fs_free_blocks_count (fs stale_cfg)) = 0"
  by (simp add: stale_cfg_def tiny_cfg_def tiny_fs_def tiny_run_def run_defs view_defs)

text \<open>
  Claim C6 as amended: in every state a sweep reaches without an error report,
  \<open>modifiedBlocks \<le> freeBlocks\<close>; \<open>freeBlocks\<close> is at most the number of blocks taken by
  workers so far, which is at most \<open>s_blocks_count - s_first_data_block\<close> (so neither
  counter wraps); \<open>percent\<close> is the value line 71 computes from the current \<open>freeBlocks\<close>
  and \<open>s_free_blocks_count\<close>, except while the worker that holds the mutex stands between
  the increment of line 70 and the assignment of line 71; and no step of any thread
  lowers \<open>freeBlocks\<close> or \<open>modifiedBlocks\<close>.
\<close>

theorem counters_progress:
  assumes "exec cfg es (init cfg) = Some s" "error_free s"
  shows "uint (modifiedBlocks s) \<le> uint (freeBlocks s) \<and>
     uint (freeBlocks s) \<le> int (length (handoff s)) \<and>
     length (handoff s) \<le> last_block cfg - first_block cfg \<and>
     (percent s = pct_of cfg (freeBlocks s) \<or> holder_at wat71 (mutex s) (workers s)) \<and>
     (\<forall>e s'. step cfg s e = Some s' \<longrightarrow>
        uint (freeBlocks s) \<le> uint (freeBlocks s') \<and>
        uint (modifiedBlocks s) \<le> uint (modifiedBlocks s'))"
proof -
  from inv_counters_exec [OF assms] have i: "inv_hand cfg s" "inv_free cfg s" "inv_mod cfg s"
    "inv_pct cfg s" by (simp_all add: inv_counters_def)
  from i(1) have hg: "hand_g cfg s" by (simp add: inv_hand_def)
  have "0 \<le> wsumf pre70 (nworkers cfg) (workers s)"
    by (rule wsumf_nonneg) (rule pre70_bounds)
  with i(2) have f: "uint (freeBlocks s) \<le> int (length (handoff s))" by (simp add: inv_free_def)
  have "0 \<le> wsumf ahead (nworkers cfg) (workers s)"
    by (rule wsumf_nonneg) (rule ahead_bounds)
  with i(3) have m: "uint (modifiedBlocks s) \<le> uint (freeBlocks s)" by (simp add: inv_mod_def)
  have mono: "uint (freeBlocks s) \<le> uint (freeBlocks s') \<and>
        uint (modifiedBlocks s) \<le> uint (modifiedBlocks s')" if st: "step cfg s e = Some s'"
    for e s'
  proof (cases e)
    case (Run x c)
    show ?thesis
    proof (cases x)
      case Main
      with Run st have "main_step cfg c s = Some s'" by (simp add: step_def)
      from main_step_keeps [OF this] show ?thesis by simp
    next
      case (Worker t)
      with Run st have t: "t < nworkers cfg" and w: "worker_step cfg t c s = Some s'"
        by (simp_all add: step_def split: if_splits)
      have "wpre70 (wpc (workers s t)) \<longrightarrow> uint (freeBlocks s) < 4294967295"
        using free_room [OF i(2) handoff_short [OF hg] t] by simp
      moreover have "wahead (wpc (workers s t)) \<longrightarrow> uint (modifiedBlocks s) < 4294967295"
        using mod_room [OF i(3) t] unsigned_less [of "freeBlocks s", where 'a = int] by auto
      ultimately show ?thesis by (rule worker_step_counters [OF w])
    qed
  next
    case (Spurious x)
    with st have "spurious cfg x s = Some s'" by (simp add: step_def)
    from spurious_keeps [OF this] show ?thesis by simp
  qed
  from m f handoff_length [OF hg] i(4) mono show ?thesis by (simp add: inv_pct_def)
qed

text \<open>The one-block sweep when the worker has just counted its block (20 events), and
  its next step, the assignment of line 71.\<close>

theorem counters_progress_witness:
  "map_option (\<lambda>s. (error_free s, counters s, length (handoff s), percent s, mutex s,
        worker_pcs tiny_cfg s)) (exec tiny_cfg (take 20 tiny_run) (init tiny_cfg)) =
     Some (True, (1, 0, 1), 1, Pct_zero, Some (Worker 0), [W71]) \<and>
   map_option (\<lambda>s. (counters s, percent s))
       (exec tiny_cfg (take 21 tiny_run) (init tiny_cfg)) = Some ((1, 0, 1), Pct_quot 1 1) \<and>
   last_block tiny_cfg - first_block tiny_cfg = 1 \<and> pct_of tiny_cfg 1 = Pct_quot 1 1"
proof -
  obtain s where s: "exec tiny_cfg (take 20 tiny_run) (init tiny_cfg) = Some s"
    and v: "error_free s" "counters s = (1, 0, 1)" "length (handoff s) = 1"
      "percent s = Pct_zero" "mutex s = Some (Worker 0)" "worker_pcs tiny_cfg s = [W71]"
    by (simp add: tiny_cfg_def tiny_fs_def tiny_run_def run_defs view_defs error_free_def)
  obtain s' where e: "exec tiny_cfg (take 21 tiny_run) (init tiny_cfg) = Some s'"
    and v': "counters s' = (1, 0, 1)" "percent s' = Pct_quot 1 1"
    by (simp add: tiny_cfg_def tiny_fs_def tiny_run_def run_defs view_defs)
  have "take 21 tiny_run = take 20 tiny_run @ [w0]" by (simp add: tiny_run_def)
  with s e have "exec tiny_cfg [w0] s = Some s'" by (simp add: exec_append)
  then have s': "step tiny_cfg s w0 = Some s'" by (simp split: option.splits)
  from counters_progress [OF s v(1)] s' s e v v' show ?thesis
    by (simp add: first_block_def last_block_def pct_of_def tiny_cfg_def tiny_fs_def)
qed

end
